theory Spec2Isabelle
  imports Main "HOL-Library.Word"
begin

unbundle bit_operations_syntax

section \<open>Mount-point derivation (mount.cpp, mountIsoFile, lines 304-323)\<close>

text \<open>
  \<^verbatim>\<open>std::hash<std::string>\<close> is supplied by the C++ library, so the hash function is a
  parameter \<open>hasher\<close> of every definition that needs it; \<^verbatim>\<open>size_t\<close> is a 64-bit word.
\<close>

type_synonym size_t = "64 word"

definition base36Chars :: string where
  "base36Chars = ''0123456789abcdefghijklmnopqrstuvwxyz''"

text \<open>
  The loop \<^verbatim>\<open>for (int i = 0; i < 5; ++i) { shortHash += base36Chars[hashValue % 36];
  hashValue /= 36; }\<close>; the first argument counts the iterations that remain.
\<close>

fun shortHashLoop :: "nat \<Rightarrow> size_t \<Rightarrow> string \<Rightarrow> string" where
  "shortHashLoop 0 hashValue shortHash = shortHash"
| "shortHashLoop (Suc n) hashValue shortHash =
     shortHashLoop n (hashValue div 36) (shortHash @ [base36Chars ! unat (hashValue mod 36)])"

definition shortHashOf :: "size_t \<Rightarrow> string" where
  "shortHashOf hashValue = shortHashLoop 5 hashValue []"

text \<open>
  \<^verbatim>\<open>fs::path(isoFile).stem().string()\<close> of the C++ standard library on a POSIX host:
  the file name is what follows the last \<^verbatim>\<open>/\<close>; the stem drops the last period and
  what follows it, except for \<^verbatim>\<open>.\<close>, \<^verbatim>\<open>..\<close>, and a name whose only period is its
  first character.
\<close>

definition filename :: "string \<Rightarrow> string" where
  "filename p = rev (takeWhile (\<lambda>c. c \<noteq> CHR ''/'') (rev p))"

definition stem :: "string \<Rightarrow> string" where
  "stem p =
     (let f = filename p in
      if f = ''.'' \<or> f = ''..'' \<or> CHR ''.'' \<notin> set f then f
      else let k = length f - Suc (length (takeWhile (\<lambda>c. c \<noteq> CHR ''.'') (rev f)))
           in if k = 0 then f else take k f)"

definition mountPointOf :: "(string \<Rightarrow> size_t) \<Rightarrow> string \<Rightarrow> string" where
  "mountPointOf hasher isoFile =
     (let isoFileName = stem isoFile;
          shortHash = shortHashOf (hasher isoFile);
          uniqueId = isoFileName @ ''_'' @ shortHash
      in ''/mnt/iso_'' @ uniqueId)"

section \<open>Display names (sanitization_extraction_readline.cpp)\<close>

text \<open>
  \<^verbatim>\<open>extractDirectoryAndFilename\<close> cuts the path at every slash and backslash, shortens
  each directory component to its text before the first space (when that space is among
  the first 29 characters) or else to 28 characters, and abbreviates \<^verbatim>\<open>/home\<close> and
  \<^verbatim>\<open>/root\<close>.
\<close>

definition isSlash :: "char \<Rightarrow> bool" where
  "isSlash c = (c = CHR ''/'' \<or> c = CHR 0x5C)"

fun splitComponents :: "string \<Rightarrow> string \<Rightarrow> string list \<times> string" where
  "splitComponents component [] = ([], component)"
| "splitComponents component (c # cs) =
     (if isSlash c
      then (case splitComponents [] cs of (ds, f) \<Rightarrow> (component # ds, f))
      else splitComponents (component @ [c]) cs)"

definition shortenComponent :: "string \<Rightarrow> string" where
  "shortenComponent component =
     (let maxComponentSize = 28;
          spacePos = length (takeWhile (\<lambda>c. c \<noteq> CHR '' '') component)
      in if spacePos < length component \<and> spacePos \<le> maxComponentSize
         then take spacePos component
         else take maxComponentSize component)"

fun replaceFirst :: "string \<Rightarrow> string \<Rightarrow> string \<Rightarrow> string" where
  "replaceFirst oldDir newDir [] = []"
| "replaceFirst oldDir newDir (c # cs) =
     (if take (length oldDir) (c # cs) = oldDir
      then newDir @ drop (length oldDir) (c # cs)
      else c # replaceFirst oldDir newDir cs)"

text \<open>
  The two replacements are applied in the iteration order of an unordered map. Neither
  replacement text can complete or destroy an occurrence of the other pattern (both
  patterns begin with \<^verbatim>\<open>/\<close> and contain no second one), so the order chosen here does
  not change the result.
\<close>

definition extractDirectoryAndFilename :: "string \<Rightarrow> string \<times> string" where
  "extractDirectoryAndFilename path =
     (case splitComponents [] path of (ds, fname) \<Rightarrow>
        let dirStream = concat (map (\<lambda>d. shortenComponent d @ ''/'') ds);
            directory = (if dirStream \<noteq> [] \<and> last dirStream = CHR ''/''
                         then butlast dirStream else dirStream)
        in (replaceFirst ''/root'' ''/R'' (replaceFirst ''/home'' ''~'' directory), fname))"

definition shell_escape :: "string \<Rightarrow> string" where
  "shell_escape s =
     [CHR 0x27]
     @ concat (map (\<lambda>c. if c = CHR 0x27 then [CHR 0x27, CHR 0x5C, CHR 0x27, CHR 0x27] else [c]) s)
     @ [CHR 0x27]"

section \<open>The host the engine runs on\<close>

text \<open>
  The operating system is outside the repository. It is modelled by the part of its
  state that \<^verbatim>\<open>mountIsoFile\<close> can observe or change (what each path names, and the flags
  \<^verbatim>\<open>statvfs\<close> reports for it) and by the answers it gives to calls whose result the
  program cannot influence. A path names nothing, an empty directory, a directory that is
  not empty, something that is not a directory, or it is \<open>Inaccessible\<close>: \<^verbatim>\<open>stat\<close> fails on
  it with an error other than \<^verbatim>\<open>ENOENT\<close> and \<^verbatim>\<open>ENOTDIR\<close>, as it does with
  \<^verbatim>\<open>ENAMETOOLONG\<close> for a name of more than 255 bytes and with \<^verbatim>\<open>EACCES\<close> below a
  directory that may not be searched.
\<close>

datatype entry = EmptyDir | NonEmptyDir | NotDir | Inaccessible

datatype outcome = Mounted | Skipped | Failed | InputError

datatype exn = invalid_argument | out_of_range | filesystem_error string

text \<open>What the program does to its surroundings and to the shared outcome sets, in order.\<close>

datatype action =
    Statvfs string
  | Geteuid
  | Exists string
  | CreateDirectory string
  | System string
  | Stderr string
  | NewContext
  | MountCall string string string
  | RemovePath string
  | Insert outcome string
  | Dispatch int

record world =
  euid :: nat
  entries :: "string \<Rightarrow> entry option"
  f_flag :: "string \<Rightarrow> 64 word"
  mkdir_error :: "string \<Rightarrow> string option"
  system_ret :: "string \<Rightarrow> int"
  context_ok :: "string \<Rightarrow> string \<Rightarrow> bool"
  mount_ret :: "string \<Rightarrow> string \<Rightarrow> string \<Rightarrow> int"
  mountedFiles :: "string set"
  skippedMessages :: "string set"
  mountedFails :: "string set"
  uniqueErrorMessages :: "string set"

text \<open>The values of \<^verbatim>\<open><sys/statvfs.h>\<close> on Linux.\<close>

definition ST_RDONLY :: "64 word" where "ST_RDONLY = 1"
definition ST_NODEV :: "64 word" where "ST_NODEV = 4"

text \<open>\<^verbatim>\<open>statvfs\<close> fails on a path that names nothing and on one that cannot be reached.\<close>

definition statvfs :: "world \<Rightarrow> string \<Rightarrow> 64 word option" where
  "statvfs w path =
     (case entries w path of
        None \<Rightarrow> None
      | Some Inaccessible \<Rightarrow> None
      | Some e \<Rightarrow> Some (f_flag w path))"

text \<open>
  \<^verbatim>\<open>fs::exists\<close>: the status of the path is read; \<^verbatim>\<open>ENOENT\<close> and \<^verbatim>\<open>ENOTDIR\<close> mean that
  the path does not exist, every other error raises \<^verbatim>\<open>filesystem_error\<close>.
\<close>

definition fs_exists :: "world \<Rightarrow> string \<Rightarrow> exn + bool" where
  "fs_exists w path =
     (case entries w path of
        None \<Rightarrow> Inr False
      | Some Inaccessible \<Rightarrow> Inl (filesystem_error ''status'')
      | Some e \<Rightarrow> Inr True)"

definition isAlreadyMounted :: "world \<Rightarrow> string \<Rightarrow> bool" where
  "isAlreadyMounted w mountPoint =
     (case statvfs w mountPoint of
        None \<Rightarrow> False
      | Some flag \<Rightarrow> flag AND ST_NODEV = 0)"

definition loadKernelModuleCommand :: "string \<Rightarrow> string" where
  "loadKernelModuleCommand moduleName = ''modprobe '' @ shell_escape moduleName @ '' 2>/dev/null''"

definition loadKernelModule :: "world \<Rightarrow> string \<Rightarrow> bool" where
  "loadKernelModule w moduleName = (system_ret w (loadKernelModuleCommand moduleName) = 0)"

text \<open>
  \<^verbatim>\<open>fs::remove\<close>: nothing to do for a missing path, a \<^verbatim>\<open>filesystem_error\<close> for a
  directory that is not empty and for a path that cannot be reached, and otherwise the path
  is gone.
\<close>

definition fs_remove :: "string \<Rightarrow> world \<Rightarrow> exn + world" where
  "fs_remove path w =
     (case entries w path of
        None \<Rightarrow> Inr w
      | Some NonEmptyDir \<Rightarrow> Inl (filesystem_error ''Directory not empty'')
      | Some Inaccessible \<Rightarrow> Inl (filesystem_error ''cannot remove'')
      | Some _ \<Rightarrow> Inr (w\<lparr>entries := (entries w)(path := None)\<rparr>))"

text \<open>
  A successful read-only loop mount makes the target the root of the mounted image, whose
  flags do not include \<^verbatim>\<open>ST_NODEV\<close>.
\<close>

definition mounted_at :: "string \<Rightarrow> world \<Rightarrow> world" where
  "mounted_at mountPoint w = w\<lparr>f_flag := (f_flag w)(mountPoint := ST_RDONLY)\<rparr>"

section \<open>The mount engine (mount.cpp, mountIsoFile)\<close>

definition ESC :: string where
  "ESC = [CHR 0x1B]"

definition sq :: string where
  "sq = [CHR 0x27]"

definition displayName :: "string \<Rightarrow> string" where
  "displayName path = (case extractDirectoryAndFilename path of (d, f) \<Rightarrow> d @ ''/'' @ f)"

definition skippedMessageOf :: "string \<Rightarrow> string \<Rightarrow> string" where
  "skippedMessageOf isoFile mountPoint =
     ESC @ ''[1;93mISO: '' @ ESC @ ''[1;92m'' @ sq @ displayName isoFile @ sq
     @ ESC @ ''[1;93m already M@: '' @ ESC @ ''[1;94m'' @ sq @ displayName mountPoint @ sq
     @ ESC @ ''[1;93m.'' @ ESC @ ''[0m''"

definition rootErrorOf :: "string \<Rightarrow> string" where
  "rootErrorOf isoFile =
     ESC @ ''[1;91mFailed to mount: '' @ ESC @ ''[1;93m'' @ sq @ displayName isoFile @ sq
     @ ESC @ ''[0m'' @ ESC @ ''[1;91m. Root privileges are required.'' @ ESC @ ''[0m''"

definition createErrorOf :: "string \<Rightarrow> string \<Rightarrow> string" where
  "createErrorOf mountPoint what =
     ESC @ ''[1;91mFailed to create mount point: '' @ ESC @ ''[1;93m'' @ sq @ mountPoint @ sq
     @ ESC @ ''[0m'' @ ESC @ ''[1;91m. Error: '' @ what @ ESC @ ''[0m''"

definition contextErrorOf :: "string \<Rightarrow> string" where
  "contextErrorOf isoFile =
     ESC @ ''[1;91mFailed to initialize mount context for: '' @ ESC @ ''[1;93m'' @ sq
     @ displayName isoFile @ sq @ ESC @ ''[0m'' @ ESC @ ''[1;91m.'' @ ESC @ ''[0m''"

definition mountedFileInfoOf :: "string \<Rightarrow> string \<Rightarrow> string \<Rightarrow> string" where
  "mountedFileInfoOf isoFile mountPoint fsType =
     ESC @ ''[1mISO: '' @ ESC @ ''[1;92m'' @ sq @ displayName isoFile @ sq @ ESC @ ''[0m''
     @ ESC @ ''[1m M@: '' @ ESC @ ''[1;94m'' @ sq @ displayName mountPoint
     @ sq @ ESC @ ''[0;1m. {'' @ fsType @ ''}'' @ ESC @ ''[0m''"

definition badFsErrorOf :: "string \<Rightarrow> string" where
  "badFsErrorOf isoFile =
     ESC @ ''[1;91mFailed to mount: '' @ ESC @ ''[1;93m'' @ sq @ displayName isoFile
     @ sq @ ''.'' @ ESC @ ''[0;1m {badFS}''"

definition moduleWarningOf :: "string \<Rightarrow> string \<Rightarrow> string" where
  "moduleWarningOf moduleName fsType =
     ''Warning: Failed to load kernel module: '' @ moduleName @ '' for filesystem: '' @ fsType"

definition fsTypeToModule :: "string \<Rightarrow> string option" where
  "fsTypeToModule =
     map_of [(''iso9660'', ''isofs''), (''udf'', ''udf''), (''hfsplus'', ''hfsplus''),
             (''isofs'', ''isofs'')]"

definition fsTypes :: "string list" where
  "fsTypes = [''iso9660'', ''udf'', ''hfsplus'', ''rockridge'', ''joliet'', ''isofs'', ''auto'']"

text \<open>
  An insertion into one of the four shared sets, made under \<^verbatim>\<open>Mutex4Low\<close> by the engine
  (Mounted, Skipped, Failed) and by the caller of the pool (InputError).
\<close>

fun insertMessage :: "outcome \<Rightarrow> string \<Rightarrow> world \<Rightarrow> world" where
  "insertMessage Mounted m w = w\<lparr>mountedFiles := insert m (mountedFiles w)\<rparr>"
| "insertMessage Skipped m w = w\<lparr>skippedMessages := insert m (skippedMessages w)\<rparr>"
| "insertMessage Failed m w = w\<lparr>mountedFails := insert m (mountedFails w)\<rparr>"
| "insertMessage InputError m w = w\<lparr>uniqueErrorMessages := insert m (uniqueErrorMessages w)\<rparr>"

text \<open>The module load that precedes a mount attempt, and the warning when it fails.\<close>

definition tryLoadModule :: "world \<Rightarrow> string \<Rightarrow> action list" where
  "tryLoadModule w fsType =
     (case fsTypeToModule fsType of
        None \<Rightarrow> []
      | Some moduleName \<Rightarrow>
          System (loadKernelModuleCommand moduleName)
          # (if loadKernelModule w moduleName then []
             else [Stderr (moduleWarningOf moduleName fsType)]))"

text \<open>
  The loop over the filesystem types (lines 372-420). The result is \<^verbatim>\<open>mountSuccess\<close>;
  the loop ends at the first type that mounts and at a context that cannot be created.
\<close>

fun tryFsTypes :: "string \<Rightarrow> string \<Rightarrow> string list \<Rightarrow> world \<Rightarrow> bool \<times> action list \<times> world" where
  "tryFsTypes isoFile mountPoint [] w = (False, [], w)"
| "tryFsTypes isoFile mountPoint (fsType # rest) w =
     (if \<not> context_ok w isoFile fsType
      then (False,
            tryLoadModule w fsType @ [NewContext, Insert Failed (contextErrorOf isoFile)],
            insertMessage Failed (contextErrorOf isoFile) w)
      else if mount_ret w isoFile mountPoint fsType = 0
      then (True,
            tryLoadModule w fsType
            @ [NewContext, MountCall isoFile mountPoint fsType,
               Insert Mounted (mountedFileInfoOf isoFile mountPoint fsType)],
            insertMessage Mounted (mountedFileInfoOf isoFile mountPoint fsType)
              (mounted_at mountPoint w))
      else (case tryFsTypes isoFile mountPoint rest w of
              (mountSuccess, acts, w') \<Rightarrow>
                (mountSuccess,
                 tryLoadModule w fsType @ [NewContext, MountCall isoFile mountPoint fsType] @ acts,
                 w')))"

text \<open>
  The end of the loop body (lines 422-432): after a failure the mount point is removed
  and only then is the message inserted.
\<close>

definition finishMount :: "string \<Rightarrow> string \<Rightarrow> bool \<times> action list \<times> world \<Rightarrow> exn option \<times> action list \<times> world" where
  "finishMount isoFile mountPoint r =
     (case r of (mountSuccess, acts, w) \<Rightarrow>
        if mountSuccess then (None, acts, w)
        else (case fs_remove mountPoint w of
                Inl e \<Rightarrow> (Some e, acts @ [RemovePath mountPoint], w)
              | Inr w' \<Rightarrow>
                  (None,
                   acts @ [RemovePath mountPoint, Insert Failed (badFsErrorOf isoFile)],
                   insertMessage Failed (badFsErrorOf isoFile) w')))"

text \<open>
  One turn of the loop over \<^verbatim>\<open>isoFilesToMount\<close>. The first component is the exception
  that leaves the function, if any: \<^verbatim>\<open>fs::exists\<close> (line 355) and \<^verbatim>\<open>fs::remove\<close> (line 427)
  are called outside any \<^verbatim>\<open>try\<close>, \<^verbatim>\<open>fs::create_directory\<close> (line 357) inside one.
\<close>

definition mountOne :: "(string \<Rightarrow> size_t) \<Rightarrow> string \<Rightarrow> world \<Rightarrow> exn option \<times> action list \<times> world" where
  "mountOne hasher isoFile w =
     (let mountPoint = mountPointOf hasher isoFile in
      if isAlreadyMounted w mountPoint
      then (None,
            [Statvfs mountPoint, Insert Skipped (skippedMessageOf isoFile mountPoint)],
            insertMessage Skipped (skippedMessageOf isoFile mountPoint) w)
      else if euid w \<noteq> 0
      then (None,
            [Statvfs mountPoint, Geteuid, Insert Failed (rootErrorOf isoFile)],
            insertMessage Failed (rootErrorOf isoFile) w)
      else (case fs_exists w mountPoint of
              Inl e \<Rightarrow> (Some e, [Statvfs mountPoint, Geteuid, Exists mountPoint], w)
            | Inr False \<Rightarrow>
                (case mkdir_error w mountPoint of
                   Some what \<Rightarrow>
                     (None,
                      [Statvfs mountPoint, Geteuid, Exists mountPoint, CreateDirectory mountPoint,
                       Insert Failed (createErrorOf mountPoint what)],
                      insertMessage Failed (createErrorOf mountPoint what) w)
                 | None \<Rightarrow>
                     (case finishMount isoFile mountPoint
                             (tryFsTypes isoFile mountPoint fsTypes
                                (w\<lparr>entries := (entries w)(mountPoint \<mapsto> EmptyDir)\<rparr>)) of
                        (e, acts, w') \<Rightarrow>
                          (e,
                           [Statvfs mountPoint, Geteuid, Exists mountPoint,
                            CreateDirectory mountPoint] @ acts,
                           w')))
            | Inr True \<Rightarrow>
                (case finishMount isoFile mountPoint (tryFsTypes isoFile mountPoint fsTypes w) of
                   (e, acts, w') \<Rightarrow>
                     (e, [Statvfs mountPoint, Geteuid, Exists mountPoint] @ acts, w'))))"

fun mountIsoFile :: "(string \<Rightarrow> size_t) \<Rightarrow> string list \<Rightarrow> world \<Rightarrow> exn option \<times> action list \<times> world" where
  "mountIsoFile hasher [] w = (None, [], w)"
| "mountIsoFile hasher (isoFile # rest) w =
     (case mountOne hasher isoFile w of
        (Some e, acts, w') \<Rightarrow> (Some e, acts, w')
      | (None, acts, w') \<Rightarrow>
          (case mountIsoFile hasher rest w' of (e, acts', w'') \<Rightarrow> (e, acts @ acts', w'')))"

section \<open>Reading the selection (mount.cpp, processAndMountIsoFiles)\<close>

definition isspace :: "char \<Rightarrow> bool" where
  "isspace c = (c \<in> set [CHR '' '', CHR 0x09, CHR 0x0A, CHR 0x0B, CHR 0x0C, CHR 0x0D])"

definition isdigit :: "char \<Rightarrow> bool" where
  "isdigit c = (c \<in> set ''0123456789'')"

text \<open>
  \<^verbatim>\<open>iss >> token\<close>: the maximal runs of characters that are not white space. The first
  argument is the token read so far.
\<close>

fun tokensFrom :: "string \<Rightarrow> string \<Rightarrow> string list" where
  "tokensFrom token [] = (if token = [] then [] else [token])"
| "tokensFrom token (c # cs) =
     (if isspace c
      then (if token = [] then tokensFrom [] cs else token # tokensFrom [] cs)
      else tokensFrom (token @ [c]) cs)"

definition tokenize :: "string \<Rightarrow> string list" where
  "tokenize input = tokensFrom [] input"

definition decimal :: "string \<Rightarrow> int" where
  "decimal ds = foldl (\<lambda>a c. 10 * a + (int (of_char c) - 48)) 0 ds"

text \<open>
  \<^verbatim>\<open>std::stoi\<close>: white space, an optional sign, then the longest run of digits; what
  follows is ignored. No digit raises \<^verbatim>\<open>invalid_argument\<close>, a value that does not fit a
  32-bit \<^verbatim>\<open>int\<close> raises \<^verbatim>\<open>out_of_range\<close>.
\<close>

definition stoi :: "string \<Rightarrow> exn + int" where
  "stoi str =
     (let s = dropWhile isspace str;
          negative = (s \<noteq> [] \<and> hd s = CHR ''-'');
          body = (if s \<noteq> [] \<and> (hd s = CHR ''-'' \<or> hd s = CHR ''+'') then tl s else s);
          ds = takeWhile isdigit body;
          v = (if negative then - decimal ds else decimal ds)
      in if ds = [] then Inl invalid_argument
         else if v < - (2 ^ 31) \<or> 2 ^ 31 - 1 < v then Inl out_of_range
         else Inr v)"

fun digitsOf :: "nat \<Rightarrow> string" where
  "digitsOf n = (if n < 10 then [''0123456789'' ! n] else digitsOf (n div 10) @ [''0123456789'' ! (n mod 10)])"

definition to_string :: "int \<Rightarrow> string" where
  "to_string i = (if i < 0 then CHR ''-'' # digitsOf (nat (- i)) else digitsOf (nat i))"

text \<open>The conversion \<^verbatim>\<open>static_cast<size_t>\<close> of an \<^verbatim>\<open>int\<close>.\<close>

definition to_size_t :: "int \<Rightarrow> nat" where
  "to_size_t i = nat (i mod 2 ^ 64)"

text \<open>
  Modelled from the spec: \<^verbatim>\<open>isAllZeros\<close> and \<^verbatim>\<open>isNumeric\<close> are declared in a header that
  is not among the sources. The spec rejects ``a token of all zeros'' and takes a token
  that is not a range for an index when it is numeric.
\<close>

definition isAllZeros :: "string \<Rightarrow> bool" where
  "isAllZeros str = list_all (\<lambda>c. c = CHR ''0'') str"

definition isNumeric :: "string \<Rightarrow> bool" where
  "isNumeric str = list_all isdigit str"

text \<open>
  The values the loop variable \<^verbatim>\<open>i\<close> takes from \<^verbatim>\<open>start\<close> to \<^verbatim>\<open>end\<close>, in either
  direction. Both bounds come from \<^verbatim>\<open>std::stoi\<close> and are checked against the number of
  candidates, which is taken to be below \<open>2 ^ 31 - 1\<close>, so that \<^verbatim>\<open>i\<close> stays an \<^verbatim>\<open>int\<close>.
\<close>

definition rangeList :: "int \<Rightarrow> int \<Rightarrow> int list" where
  "rangeList start end' = (if start \<le> end' then [start..end'] else rev [end'..start])"

definition find_from :: "char \<Rightarrow> nat \<Rightarrow> string \<Rightarrow> nat option" where
  "find_from c pos str =
     (if c \<in> set (drop pos str)
      then Some (pos + length (takeWhile (\<lambda>x. x \<noteq> c) (drop pos str)))
      else None)"

subsection \<open>The counting pass (lines 445-484)\<close>

text \<open>
  The inner loop over a range: every index but 0 is inserted as a string, up to the
  ceiling \<^verbatim>\<open>maxThreads\<close>. \<^verbatim>\<open>maxThreads\<close> is defined outside the sources and is a
  parameter.
\<close>

fun countRange :: "nat \<Rightarrow> int list \<Rightarrow> string set \<Rightarrow> string set" where
  "countRange maxThreads [] tokens = tokens"
| "countRange maxThreads (i # rest) tokens =
     (let tokens' = (if i \<noteq> 0 then insert (to_string i) tokens else tokens)
      in if card tokens' \<ge> maxThreads then tokens' else countRange maxThreads rest tokens')"

text \<open>
  One token of the counting pass. The result says whether the \<^verbatim>\<open>while\<close> loop is left
  by \<^verbatim>\<open>break\<close>. Both calls of \<^verbatim>\<open>std::stoi\<close> are outside any \<^verbatim>\<open>try\<close>.
\<close>

definition countToken :: "nat \<Rightarrow> nat \<Rightarrow> string \<Rightarrow> string set \<Rightarrow> exn + (bool \<times> string set)" where
  "countToken maxThreads n tokenCount tokens =
     (if take 1 tokenCount = ''-'' then Inr (False, tokens)
      else if count_list tokenCount (CHR ''-'') > 1 then Inr (False, tokens)
      else (case find_from (CHR ''-'') 0 tokenCount of
              Some dashPos \<Rightarrow>
                (let start = take dashPos tokenCount;
                     end' = drop (dashPos + 1) tokenCount
                 in if list_all isdigit start \<and> list_all isdigit end'
                    then (case stoi start of
                            Inl e \<Rightarrow> Inl e
                          | Inr startNum \<Rightarrow>
                              (case stoi end' of
                                 Inl e \<Rightarrow> Inl e
                               | Inr endNum \<Rightarrow>
                                   if to_size_t startNum \<le> n \<and> to_size_t endNum \<le> n
                                   then Inr (False, countRange maxThreads (rangeList startNum endNum) tokens)
                                   else Inr (False, tokens)))
                    else Inr (False, tokens))
            | None \<Rightarrow>
                if list_all isdigit tokenCount
                then (case stoi tokenCount of
                        Inl e \<Rightarrow> Inl e
                      | Inr num \<Rightarrow>
                          if num > 0 \<and> to_size_t num \<le> n
                          then Inr (card (insert tokenCount tokens) \<ge> maxThreads, insert tokenCount tokens)
                          else Inr (False, tokens))
                else Inr (False, tokens)))"

fun countTokens :: "nat \<Rightarrow> nat \<Rightarrow> string list \<Rightarrow> string set \<Rightarrow> exn + string set" where
  "countTokens maxThreads n [] tokens = Inr tokens"
| "countTokens maxThreads n (tokenCount # rest) tokens =
     (if \<not> card tokens < maxThreads then Inr tokens
      else (case countToken maxThreads n tokenCount tokens of
              Inl e \<Rightarrow> Inl e
            | Inr (stop, tokens') \<Rightarrow>
                if stop then Inr tokens' else countTokens maxThreads n rest tokens'))"

subsection \<open>The dispatching pass (lines 533-608)\<close>

text \<open>
  The local variables of \<^verbatim>\<open>processAndMountIsoFiles\<close> that both passes, the workers and
  the progress display share. \<open>pending\<close> is the queue of the pool: the arguments of the
  \<^verbatim>\<open>processTask\<close> closures handed to \<^verbatim>\<open>pool.enqueue\<close>, in order. \<open>progressThread\<close>
  is the \<^verbatim>\<open>std::thread\<close> of line 622, which does not exist before that line.
\<close>

datatype thread = NotStarted | Running | Joined

record locals =
  processedIndices :: "int set"
  validIndices :: "int set"
  processedRanges :: "(int \<times> int) set"
  totalTasks :: int
  completedTasks :: int
  activeTaskCount :: int
  errorQueue :: "string list"
  invalidInput :: bool
  pending :: "int list"
  isProcessingComplete :: bool
  progressThread :: thread

definition initialLocals :: locals where
  "initialLocals =
     \<lparr>processedIndices = {}, validIndices = {}, processedRanges = {}, totalTasks = 0,
      completedTasks = 0, activeTaskCount = 0, errorQueue = [], invalidInput = False,
      pending = [], isProcessingComplete = False, progressThread = NotStarted\<rparr>"

definition addError :: "string \<Rightarrow> locals \<Rightarrow> locals" where
  "addError error st = st\<lparr>errorQueue := errorQueue st @ [error], invalidInput := True\<rparr>"

text \<open>Lines 573-584 and 590-601: an index not yet in \<^verbatim>\<open>processedIndices\<close> becomes a task.\<close>

definition submitIndex :: "int \<Rightarrow> locals \<Rightarrow> locals" where
  "submitIndex i st =
     (if i \<in> processedIndices st then st
      else st\<lparr>processedIndices := insert i (processedIndices st),
              totalTasks := totalTasks st + 1,
              activeTaskCount := activeTaskCount st + 1,
              pending := pending st @ [i]\<rparr>)"

definition invalidInputOf :: "string \<Rightarrow> string" where
  "invalidInputOf token = ESC @ ''[1;91mInvalid input: '' @ sq @ token @ sq @ ''.'' @ ESC @ ''[0;1m''"

definition invalidRangeOf :: "string \<Rightarrow> string" where
  "invalidRangeOf r = ESC @ ''[1;91mInvalid range: '' @ sq @ r @ sq @ ''.'' @ ESC @ ''[0;1m''"

definition invalidIndexOf :: "string \<Rightarrow> string" where
  "invalidIndexOf index = ESC @ ''[1;91mInvalid index: '' @ sq @ index @ sq @ ''.'' @ ESC @ ''[0;1m''"

text \<open>
  A token with a hyphen whose two bounds were read (lines 564-586). A range already in
  \<^verbatim>\<open>processedRanges\<close> falls through the \<^verbatim>\<open>if\<close> without any effect.
\<close>

definition processRange :: "nat \<Rightarrow> int \<Rightarrow> int \<Rightarrow> locals \<Rightarrow> locals" where
  "processRange n start end' st =
     (if start < 1 \<or> to_size_t start > n \<or> end' < 1 \<or> to_size_t end' > n
      then addError (invalidRangeOf (to_string start @ ''-'' @ to_string end')) st
      else if (start, end') \<in> processedRanges st then st
      else fold submitIndex (rangeList start end')
             (st\<lparr>processedRanges := insert (start, end') (processedRanges st)\<rparr>))"

text \<open>
  One token of the dispatching pass. The \<^verbatim>\<open>std::stoi\<close> calls of a range are inside a
  \<^verbatim>\<open>try\<close> with handlers for \<^verbatim>\<open>invalid_argument\<close> and \<^verbatim>\<open>out_of_range\<close>; the call for a
  single index is not, and its exception leaves the function.
\<close>

definition processToken :: "nat \<Rightarrow> string \<Rightarrow> locals \<Rightarrow> exn + locals" where
  "processToken n token st =
     (if isAllZeros token then Inr (addError (invalidIndexOf ''0'') st)
      else (case find_from (CHR ''-'') 0 token of
              Some dashPos \<Rightarrow>
                if find_from (CHR ''-'') (dashPos + 1) token \<noteq> None
                   \<or> dashPos = 0 \<or> dashPos = length token - 1
                   \<or> \<not> isdigit (token ! (dashPos - 1)) \<or> \<not> isdigit (token ! (dashPos + 1))
                then Inr (addError (invalidInputOf token) st)
                else (case stoi (take dashPos token) of
                        Inl invalid_argument \<Rightarrow> Inr (addError (invalidInputOf token) st)
                      | Inl out_of_range \<Rightarrow> Inr (addError (invalidRangeOf token) st)
                      | Inl e \<Rightarrow> Inl e
                      | Inr start \<Rightarrow>
                          (case stoi (drop (dashPos + 1) token) of
                             Inl invalid_argument \<Rightarrow> Inr (addError (invalidInputOf token) st)
                           | Inl out_of_range \<Rightarrow> Inr (addError (invalidRangeOf token) st)
                           | Inl e \<Rightarrow> Inl e
                           | Inr end' \<Rightarrow> Inr (processRange n start end' st)))
            | None \<Rightarrow>
                if isNumeric token
                then (case stoi token of
                        Inl e \<Rightarrow> Inl e
                      | Inr num \<Rightarrow>
                          if num \<ge> 1 \<and> to_size_t num \<le> n then Inr (submitIndex num st)
                          else if to_size_t num > n
                          then Inr (addError (invalidIndexOf (to_string num)) st)
                          else Inr st)
                else Inr (addError (invalidInputOf token) st)))"

text \<open>The loop over the tokens; a lone \<^verbatim>\<open>/\<close> ends it.\<close>

fun processTokens :: "nat \<Rightarrow> string list \<Rightarrow> locals \<Rightarrow> exn option \<times> locals" where
  "processTokens n [] st = (None, st)"
| "processTokens n (token # rest) st =
     (if token = ''/'' then (None, st)
      else (case processToken n token st of
              Inl e \<Rightarrow> (Some e, st)
            | Inr st' \<Rightarrow> processTokens n rest st'))"

subsection \<open>The workers (lines 507-525)\<close>

text \<open>
  \<^verbatim>\<open>processTask\<close>. When \<^verbatim>\<open>mountIsoFile\<close> raises, the two counter updates that follow it
  are not reached.
\<close>

definition taskDone :: "locals \<Rightarrow> locals" where
  "taskDone st = st\<lparr>completedTasks := completedTasks st + 1, activeTaskCount := activeTaskCount st - 1\<rparr>"

definition processTask :: "(string \<Rightarrow> size_t) \<Rightarrow> string list \<Rightarrow> int \<Rightarrow> locals \<Rightarrow> world \<Rightarrow> action list \<times> locals \<times> world" where
  "processTask hasher isoFiles index st w =
     (let shouldProcess = (index \<notin> validIndices st);
          st' = st\<lparr>validIndices := insert index (validIndices st)\<rparr>
      in if shouldProcess
         then (case mountIsoFile hasher [isoFiles ! nat (index - 1)] w of
                 (Some e, acts, w') \<Rightarrow> (Dispatch index # acts, st', w')
               | (None, acts, w') \<Rightarrow> (Dispatch index # acts, taskDone st', w'))
         else ([], taskDone st', w))"

text \<open>
  Modelled from the spec: \<^verbatim>\<open>ThreadPool\<close> (threadpool.h is not among the sources). The
  spec describes a simple first-in first-out queue served by a fixed set of worker threads
  that hands back a completion handle per closure. Here every closure runs to its end
  before the next one starts, in the order of submission, and an exception ends only the
  closure that raised it. A pool constructed with no worker runs nothing.
\<close>

fun runTasks :: "(string \<Rightarrow> size_t) \<Rightarrow> string list \<Rightarrow> int list \<Rightarrow> locals \<Rightarrow> world \<Rightarrow> action list \<times> locals \<times> world" where
  "runTasks hasher isoFiles [] st w = ([], st, w)"
| "runTasks hasher isoFiles (index # rest) st w =
     (case processTask hasher isoFiles index st w of
        (acts, st', w') \<Rightarrow>
          (case runTasks hasher isoFiles rest st' w' of
             (acts', st'', w'') \<Rightarrow> (acts @ acts', st'', w'')))"

definition runPool :: "nat \<Rightarrow> (string \<Rightarrow> size_t) \<Rightarrow> string list \<Rightarrow> locals \<Rightarrow> world \<Rightarrow> action list \<times> locals \<times> world" where
  "runPool numThreads hasher isoFiles st w =
     (if numThreads = 0 then ([], st, w) else runTasks hasher isoFiles (pending st) st w)"

subsection \<open>The whole call\<close>

text \<open>Lines 610-617: the queued errors go into \<^verbatim>\<open>uniqueErrorMessages\<close>.\<close>

fun reportErrors :: "string list \<Rightarrow> world \<Rightarrow> action list \<times> world" where
  "reportErrors [] w = ([], w)"
| "reportErrors (error # rest) w =
     (case reportErrors rest (insertMessage InputError error w) of
        (acts, w') \<Rightarrow> (Insert InputError error # acts, w'))"

text \<open>
  How a call ends: it returns, an exception leaves it, or it stays blocked, in the wait for
  \<^verbatim>\<open>activeTaskCount\<close> to reach zero (lines 624-628) or in the \<^verbatim>\<open>join\<close> of line 632.
\<close>

datatype ending = Returned | Threw exn | Waiting

text \<open>
  Modelled from the spec: \<^verbatim>\<open>displayProgressBar\<close> is not among the sources. The spec's
  progress reporter ``runs on its own thread, periodically rendering completed/total, until
  the done flag is observed set; then returns''. What it prints is left out; what is kept
  is that \<^verbatim>\<open>progressThread.join()\<close> comes back once the flag is set, and not before.
\<close>

definition joinProgress :: "locals \<Rightarrow> locals option" where
  "joinProgress st =
     (if isProcessingComplete st then Some (st\<lparr>progressThread := Joined\<rparr>) else None)"

text \<open>
  Lines 618-633. With no resolved index nothing is started and nothing awaited. Otherwise
  the progress thread is started, the caller waits for \<^verbatim>\<open>activeTaskCount\<close> to be zero,
  sets \<^verbatim>\<open>isProcessingComplete\<close> and joins the thread.
\<close>

definition awaitTasks :: "locals \<Rightarrow> ending \<times> locals" where
  "awaitTasks st =
     (if processedIndices st = {} then (Returned, st)
      else (let st1 = st\<lparr>progressThread := Running\<rparr> in
            if activeTaskCount st1 \<noteq> 0 then (Waiting, st1)
            else (let st2 = st1\<lparr>isProcessingComplete := True\<rparr> in
                  case joinProgress st2 of
                    None \<Rightarrow> (Waiting, st2)
                  | Some st3 \<Rightarrow> (Returned, st3))))"

definition processAndMountIsoFiles :: "nat \<Rightarrow> (string \<Rightarrow> size_t) \<Rightarrow> string \<Rightarrow> string list \<Rightarrow> world \<Rightarrow> ending \<times> action list \<times> locals \<times> world" where
  "processAndMountIsoFiles maxThreads hasher input isoFiles w =
     (case countTokens maxThreads (length isoFiles) (tokenize input) {} of
        Inl e \<Rightarrow> (Threw e, [], initialLocals, w)
      | Inr tokens \<Rightarrow>
          (let numThreads = min (card tokens) maxThreads in
           case processTokens (length isoFiles) (tokenize input) initialLocals of
             (thrown, st) \<Rightarrow>
               (case runPool numThreads hasher isoFiles st w of
                  (acts, st', w') \<Rightarrow>
                    (case thrown of
                       Some e \<Rightarrow> (Threw e, acts, st', w')
                     | None \<Rightarrow>
                         (case reportErrors (errorQueue st') w' of
                            (acts', w'') \<Rightarrow>
                              (case awaitTasks st' of
                                 (r, st'') \<Rightarrow> (r, acts @ acts', st'', w'')))))))"

subsection \<open>Reading the record of a call\<close>

definition dispatchedIndices :: "action list \<Rightarrow> int list" where
  "dispatchedIndices acts = concat (map (\<lambda>a. case a of Dispatch i \<Rightarrow> [i] | _ \<Rightarrow> []) acts)"

definition mountCalls :: "action list \<Rightarrow> action list" where
  "mountCalls acts = filter (\<lambda>a. case a of MountCall s t f \<Rightarrow> True | _ \<Rightarrow> False) acts"

definition createdDirectories :: "action list \<Rightarrow> string list" where
  "createdDirectories acts = concat (map (\<lambda>a. case a of CreateDirectory p \<Rightarrow> [p] | _ \<Rightarrow> []) acts)"

definition insertions :: "action list \<Rightarrow> (outcome \<times> string) list" where
  "insertions acts = concat (map (\<lambda>a. case a of Insert c m \<Rightarrow> [(c, m)] | _ \<Rightarrow> []) acts)"

text \<open>The shared set that holds the messages of one outcome class.\<close>

fun outcomeSet :: "outcome \<Rightarrow> world \<Rightarrow> string set" where
  "outcomeSet Mounted w = mountedFiles w"
| "outcomeSet Skipped w = skippedMessages w"
| "outcomeSet Failed w = mountedFails w"
| "outcomeSet InputError w = uniqueErrorMessages w"

definition insertedInto :: "outcome \<Rightarrow> action list \<Rightarrow> string set" where
  "insertedInto c acts = set (map snd (filter (\<lambda>x. fst x = c) (insertions acts)))"

text \<open>
  What holds of the locals between the dispatching pass and the first task: the queue of
  the pool lists the resolved indices once each, all of them index a candidate, the
  counters count the queue, and the progress thread does not exist yet.
\<close>

definition tasksConsistent :: "nat \<Rightarrow> locals \<Rightarrow> bool" where
  "tasksConsistent n st \<longleftrightarrow>
     set (pending st) = processedIndices st \<and> distinct (pending st)
     \<and> (\<forall>i \<in> processedIndices st. 1 \<le> i \<and> i \<le> int n)
     \<and> totalTasks st = int (length (pending st))
     \<and> activeTaskCount st = int (length (pending st))
     \<and> completedTasks st = 0 \<and> validIndices st = {}
     \<and> \<not> isProcessingComplete st \<and> progressThread st = NotStarted"

text \<open>Where a candidate ends up when the caller is not privileged.\<close>

definition landsUnprivileged :: "(string \<Rightarrow> size_t) \<Rightarrow> world \<Rightarrow> string \<Rightarrow> world \<Rightarrow> bool" where
  "landsUnprivileged hasher w isoFile w' =
     (if isAlreadyMounted w (mountPointOf hasher isoFile)
      then skippedMessageOf isoFile (mountPointOf hasher isoFile) \<in> skippedMessages w'
      else rootErrorOf isoFile \<in> mountedFails w')"

subsection \<open>A host to evaluate on\<close>

text \<open>
  Root on a machine with nothing under \<^verbatim>\<open>/mnt\<close>, whose filesystems are mounted
  \<^verbatim>\<open>nodev\<close> and where no filesystem type can mount anything.
\<close>

definition exampleHasher :: "string \<Rightarrow> size_t" where
  "exampleHasher path = 7"

definition exampleHost :: world where
  "exampleHost =
     \<lparr>euid = 0, entries = (\<lambda>path. None), f_flag = (\<lambda>path. ST_NODEV),
      mkdir_error = (\<lambda>path. None), system_ret = (\<lambda>command. 0),
      context_ok = (\<lambda>source fsType. True), mount_ret = (\<lambda>source target fsType. 32),
      mountedFiles = {}, skippedMessages = {}, mountedFails = {}, uniqueErrorMessages = {}\<rparr>"

definition exampleFiles :: "string list" where
  "exampleFiles =
     [''/home/u/a.iso'', ''/home/u/b.iso'', ''/home/u/c.iso'', ''/srv/d.iso'', ''/srv/e.iso'',
      ''/srv/f.iso'']"


section \<open>Properties of the mount point\<close>

lemma base36Chars_length: "length base36Chars = 36"
  by (simp add: base36Chars_def)

lemma base36Chars_distinct: "distinct base36Chars"
  by (simp add: base36Chars_def)

lemma base36_nth_inject:
  assumes "i < 36" and "j < 36"
  shows "base36Chars ! i = base36Chars ! j \<longleftrightarrow> i = j"
  using assms nth_eq_iff_index_eq[OF base36Chars_distinct, of i j]
  by (simp add: base36Chars_length)

lemma shortHashLoop_acc: "shortHashLoop n h acc = acc @ shortHashLoop n h []"
proof (induction n arbitrary: h acc)
  case 0
  show ?case by simp
next
  case (Suc n)
  show ?case
    using Suc.IH[of "h div 36" "acc @ [base36Chars ! unat (h mod 36)]"]
      Suc.IH[of "h div 36" "[base36Chars ! unat (h mod 36)]"]
    by simp
qed

lemma shortHashLoop_Suc:
  "shortHashLoop (Suc n) h [] = (base36Chars ! (unat h mod 36)) # shortHashLoop n (h div 36) []"
  using shortHashLoop_acc[of n "h div 36" "[base36Chars ! unat (h mod 36)]"]
  by (simp add: unat_mod)

lemma shortHashLoop_length: "length (shortHashLoop n h []) = n"
  by (induction n arbitrary: h) (simp_all add: shortHashLoop_Suc del: shortHashLoop.simps(2))

lemma shortHashLoop_digits:
  "shortHashLoop n h [] = map (\<lambda>i. base36Chars ! ((unat h div 36 ^ i) mod 36)) [0..<n]"
proof (induction n arbitrary: h)
  case 0
  show ?case by simp
next
  case (Suc n)
  have "shortHashLoop (Suc n) h []
        = (base36Chars ! (unat h mod 36)) # map (\<lambda>i. base36Chars ! ((unat h div 36 div 36 ^ i) mod 36)) [0..<n]"
    by (simp add: shortHashLoop_Suc Suc.IH unat_div del: shortHashLoop.simps(2))
  also have "\<dots> = map (\<lambda>i. base36Chars ! ((unat h div 36 ^ i) mod 36)) (0 # map Suc [0..<n])"
    by (simp add: div_mult2_eq o_def)
  also have "0 # map Suc [0..<n] = [0..<Suc n]"
    by (simp add: upt_conv_Cons map_Suc_upt del: upt_Suc)
  finally show ?case .
qed

lemma shortHashLoop_inject:
  "shortHashLoop n a [] = shortHashLoop n b [] \<longleftrightarrow> unat a mod 36 ^ n = unat b mod 36 ^ n"
proof (induction n arbitrary: a b)
  case 0
  show ?case by simp
next
  case (Suc n)
  have split: "\<And>x::nat. x mod 36 ^ Suc n = 36 * (x div 36 mod 36 ^ n) + x mod 36"
    by (simp add: mod_mult2_eq)
  have "shortHashLoop (Suc n) a [] = shortHashLoop (Suc n) b []
        \<longleftrightarrow> unat a mod 36 = unat b mod 36 \<and> shortHashLoop n (a div 36) [] = shortHashLoop n (b div 36) []"
    by (simp add: shortHashLoop_Suc base36_nth_inject del: shortHashLoop.simps(2))
  also have "\<dots> \<longleftrightarrow> unat a mod 36 = unat b mod 36 \<and> unat a div 36 mod 36 ^ n = unat b div 36 mod 36 ^ n"
    by (simp add: Suc.IH unat_div)
  also have "\<dots> \<longleftrightarrow> unat a mod 36 ^ Suc n = unat b mod 36 ^ Suc n"
  proof
    assume "unat a mod 36 = unat b mod 36 \<and> unat a div 36 mod 36 ^ n = unat b div 36 mod 36 ^ n"
    then show "unat a mod 36 ^ Suc n = unat b mod 36 ^ Suc n"
      by (simp only: split)
  next
    assume eq: "unat a mod 36 ^ Suc n = unat b mod 36 ^ Suc n"
    have "(unat a mod 36 ^ Suc n) mod 36 = (unat b mod 36 ^ Suc n) mod 36"
      using eq by simp
    then have m: "unat a mod 36 = unat b mod 36"
      by (simp add: mod_mod_cancel)
    have "(unat a mod 36 ^ Suc n) div 36 = (unat b mod 36 ^ Suc n) div 36"
      using eq by simp
    then have "unat a div 36 mod 36 ^ n = unat b div 36 mod 36 ^ n"
      by (simp only: split) simp
    with m show "unat a mod 36 = unat b mod 36 \<and> unat a div 36 mod 36 ^ n = unat b div 36 mod 36 ^ n"
      by simp
  qed
  finally show ?case .
qed

lemma shortHashOf_inject:
  "shortHashOf a = shortHashOf b \<longleftrightarrow> unat a mod 36 ^ 5 = unat b mod 36 ^ 5"
  unfolding shortHashOf_def by (rule shortHashLoop_inject)

lemma stem_under_directory: "stem (d @ ''/x'') = ''x''"
  by (simp add: stem_def filename_def)

lemma mountOne_first_action:
  "\<exists>acts. fst (snd (mountOne hasher path w)) = Statvfs (mountPointOf hasher path) # acts"
  by (simp add: mountOne_def Let_def split: option.split prod.split sum.split bool.split)

text \<open>
  Claim C2. The mount point of a path is \<^verbatim>\<open>/mnt/iso_\<close>, the stem of the path, an
  underscore and five base-36 characters of the hash of the path: its five lowest base-36
  digits, the lowest first. Whatever the state of the host, \<^verbatim>\<open>mountIsoFile\<close> derives
  this same string for the path: it is the mount point it first probes.
\<close>

theorem mountPoint_is_prefix_stem_digest:
  "mountPointOf hasher path
     = ''/mnt/iso_'' @ stem path @ ''_''
       @ map (\<lambda>i. base36Chars ! ((unat (hasher path) div 36 ^ i) mod 36)) [0..<5]
   \<and> (\<forall>w. \<exists>acts. fst (snd (mountOne hasher path w)) = Statvfs (mountPointOf hasher path) # acts)"
proof -
  have "shortHashOf (hasher path)
        = map (\<lambda>i. base36Chars ! ((unat (hasher path) div 36 ^ i) mod 36)) [0..<5]"
    unfolding shortHashOf_def by (rule shortHashLoop_digits)
  then have "mountPointOf hasher path
        = ''/mnt/iso_'' @ stem path @ ''_''
          @ map (\<lambda>i. base36Chars ! ((unat (hasher path) div 36 ^ i) mod 36)) [0..<5]"
    by (simp add: mountPointOf_def Let_def)
  moreover have "\<forall>w. \<exists>acts. fst (snd (mountOne hasher path w)) = Statvfs (mountPointOf hasher path) # acts"
    using mountOne_first_action by blast
  ultimately show ?thesis by blast
qed

theorem mountPoint_is_prefix_stem_digest_witness:
  "mountPointOf (\<lambda>p. 12345678) ''/home/u/b.tar.iso'' = ''/mnt/iso_b.tar_izlc7''"
  using mountPoint_is_prefix_stem_digest[of "\<lambda>p. 12345678" "''/home/u/b.tar.iso''"]
  by (simp add: stem_def filename_def base36Chars_def upt_rec[of _ 5] upt_rec[of _ 4]   )

lemma mountPointOf_same_stem:
  assumes "stem p = stem q"
  shows "mountPointOf hasher p = mountPointOf hasher q
         \<longleftrightarrow> unat (hasher p) mod 36 ^ 5 = unat (hasher q) mod 36 ^ 5"
  using assms by (simp add: mountPointOf_def Let_def shortHashOf_inject)

text \<open>
  Claim C7, as amended. Two paths with the same stem get the same mount point exactly
  when their hashes agree modulo \<open>36 ^ 5\<close>; distinct paths with one base name are kept
  apart only as far as the five-digit digest keeps them apart.
\<close>

theorem mountPoint_collides_iff_digests_agree:
  assumes "stem p = stem q"
  shows "mountPointOf hasher p = mountPointOf hasher q
         \<longleftrightarrow> unat (hasher p) mod 36 ^ 5 = unat (hasher q) mod 36 ^ 5"
  using assms by (rule mountPointOf_same_stem)

theorem mountPoint_collides_iff_digests_agree_witness:
  "stem ''/a/x.iso'' = stem ''/b/x.iso''
   \<and> mountPointOf (\<lambda>p. if p = ''/a/x.iso'' then 7 else 7 + 36 ^ 5) ''/a/x.iso''
     = mountPointOf (\<lambda>p. if p = ''/a/x.iso'' then 7 else 7 + 36 ^ 5) ''/b/x.iso''"
proof -
  have s: "stem ''/a/x.iso'' = stem ''/b/x.iso''"
    by (simp add: stem_def filename_def)
  show ?thesis
    using s mountPoint_collides_iff_digests_agree[OF s, of "\<lambda>p. if p = ''/a/x.iso'' then 7 else 7 + 36 ^ 5"]
    by simp
qed

text \<open>
  Claim C7 as stated fails for every hash function: infinitely many paths share a base
  name and only \<open>36 ^ 5\<close> digests exist.
\<close>

theorem mountPoint_collision_exists:
  "\<not> (\<exists>hasher. \<forall>p q. p \<noteq> q \<and> stem p = stem q \<longrightarrow> mountPointOf hasher p \<noteq> mountPointOf hasher q)"
proof
  assume "\<exists>hasher. \<forall>p q. p \<noteq> q \<and> stem p = stem q \<longrightarrow> mountPointOf hasher p \<noteq> mountPointOf hasher q"
  then obtain hasher where free:
    "\<And>p q. p \<noteq> q \<Longrightarrow> stem p = stem q \<Longrightarrow> mountPointOf hasher p \<noteq> mountPointOf hasher q"
    by blast
  define path where "path n = replicate n (CHR ''d'') @ ''/x''" for n :: nat
  define g where "g n = unat (hasher (path n)) mod 36 ^ 5" for n :: nat
  have stems: "stem (path m) = stem (path n)" for m n
    by (simp add: path_def stem_under_directory)
  have "inj g"
  proof (rule injI)
    fix m n
    assume eq: "g m = g n"
    show "m = n"
    proof (rule ccontr)
      assume "m \<noteq> n"
      then have "path m \<noteq> path n"
        by (auto simp: path_def dest: arg_cong[where f = length])
      then have "mountPointOf hasher (path m) \<noteq> mountPointOf hasher (path n)"
        using free stems by blast
      then show False
        using eq mountPointOf_same_stem[OF stems, of hasher m n]
        by (simp add: g_def)
    qed
  qed
  moreover have "range g \<subseteq> {..<36 ^ 5}"
    by (auto simp: g_def)
  then have "finite (range g)"
    by (rule finite_subset) simp
  ultimately have "finite (UNIV :: nat set)"
    by (rule finite_imageD[rotated])
  then show False by simp
qed



section \<open>Properties of the mount engine\<close>

lemma insertions_simps [simp]:
  "insertions [] = []"
  "insertions (Insert c m # acts) = (c, m) # insertions acts"
  "insertions (Statvfs p # acts) = insertions acts"
  "insertions (Geteuid # acts) = insertions acts"
  "insertions (Exists p # acts) = insertions acts"
  "insertions (CreateDirectory p # acts) = insertions acts"
  "insertions (System s # acts) = insertions acts"
  "insertions (Stderr s # acts) = insertions acts"
  "insertions (NewContext # acts) = insertions acts"
  "insertions (MountCall a b d # acts) = insertions acts"
  "insertions (RemovePath p # acts) = insertions acts"
  "insertions (Dispatch i # acts) = insertions acts"
  "insertions (acts @ acts') = insertions acts @ insertions acts'"
  by (simp_all add: insertions_def)

lemma createdDirectories_simps [simp]:
  "createdDirectories [] = []"
  "createdDirectories (Insert c m # acts) = createdDirectories acts"
  "createdDirectories (Statvfs p # acts) = createdDirectories acts"
  "createdDirectories (Geteuid # acts) = createdDirectories acts"
  "createdDirectories (Exists p # acts) = createdDirectories acts"
  "createdDirectories (CreateDirectory p # acts) = p # createdDirectories acts"
  "createdDirectories (System s # acts) = createdDirectories acts"
  "createdDirectories (Stderr s # acts) = createdDirectories acts"
  "createdDirectories (NewContext # acts) = createdDirectories acts"
  "createdDirectories (MountCall a b d # acts) = createdDirectories acts"
  "createdDirectories (RemovePath p # acts) = createdDirectories acts"
  "createdDirectories (Dispatch i # acts) = createdDirectories acts"
  "createdDirectories (acts @ acts') = createdDirectories acts @ createdDirectories acts'"
  by (simp_all add: createdDirectories_def)

lemma mountCalls_simps [simp]:
  "mountCalls [] = []"
  "mountCalls (Insert c m # acts) = mountCalls acts"
  "mountCalls (Statvfs p # acts) = mountCalls acts"
  "mountCalls (Geteuid # acts) = mountCalls acts"
  "mountCalls (Exists p # acts) = mountCalls acts"
  "mountCalls (CreateDirectory p # acts) = mountCalls acts"
  "mountCalls (System s # acts) = mountCalls acts"
  "mountCalls (Stderr s # acts) = mountCalls acts"
  "mountCalls (NewContext # acts) = mountCalls acts"
  "mountCalls (MountCall a b d # acts) = MountCall a b d # mountCalls acts"
  "mountCalls (RemovePath p # acts) = mountCalls acts"
  "mountCalls (Dispatch i # acts) = mountCalls acts"
  "mountCalls (acts @ acts') = mountCalls acts @ mountCalls acts'"
  by (simp_all add: mountCalls_def)

lemma dispatchedIndices_simps [simp]:
  "dispatchedIndices [] = []"
  "dispatchedIndices (Insert c m # acts) = dispatchedIndices acts"
  "dispatchedIndices (Statvfs p # acts) = dispatchedIndices acts"
  "dispatchedIndices (Geteuid # acts) = dispatchedIndices acts"
  "dispatchedIndices (Exists p # acts) = dispatchedIndices acts"
  "dispatchedIndices (CreateDirectory p # acts) = dispatchedIndices acts"
  "dispatchedIndices (System s # acts) = dispatchedIndices acts"
  "dispatchedIndices (Stderr s # acts) = dispatchedIndices acts"
  "dispatchedIndices (NewContext # acts) = dispatchedIndices acts"
  "dispatchedIndices (MountCall a b d # acts) = dispatchedIndices acts"
  "dispatchedIndices (RemovePath p # acts) = dispatchedIndices acts"
  "dispatchedIndices (Dispatch i # acts) = i # dispatchedIndices acts"
  "dispatchedIndices (acts @ acts') = dispatchedIndices acts @ dispatchedIndices acts'"
  by (simp_all add: dispatchedIndices_def)

lemma tryLoadModule_quiet [simp]:
  "insertions (tryLoadModule w fsType) = []"
  "createdDirectories (tryLoadModule w fsType) = []"
  "mountCalls (tryLoadModule w fsType) = []"
  "dispatchedIndices (tryLoadModule w fsType) = []"
  by (simp_all add: tryLoadModule_def split: option.split)

lemma insertMessage_host [simp]:
  "euid (insertMessage c m w) = euid w"
  "entries (insertMessage c m w) = entries w"
  "f_flag (insertMessage c m w) = f_flag w"
  "mkdir_error (insertMessage c m w) = mkdir_error w"
  "system_ret (insertMessage c m w) = system_ret w"
  "context_ok (insertMessage c m w) = context_ok w"
  "mount_ret (insertMessage c m w) = mount_ret w"
  by (cases c; simp)+

lemma outcomeSet_insertMessage [simp]:
  "outcomeSet c' (insertMessage c m w) = (if c' = c then insert m (outcomeSet c w) else outcomeSet c' w)"
  by (cases c; cases c'; simp)

lemma insertedInto_simps [simp]:
  "insertedInto c [] = {}"
  "insertedInto c (acts @ acts') = insertedInto c acts \<union> insertedInto c acts'"
  "insertedInto c (Insert c' m # acts) = (if c = c' then insert m (insertedInto c acts) else insertedInto c acts)"
  "insertedInto c (Statvfs p # acts) = insertedInto c acts"
  "insertedInto c (Geteuid # acts) = insertedInto c acts"
  "insertedInto c (Exists p # acts) = insertedInto c acts"
  "insertedInto c (CreateDirectory p # acts) = insertedInto c acts"
  "insertedInto c (NewContext # acts) = insertedInto c acts"
  "insertedInto c (MountCall a b d # acts) = insertedInto c acts"
  "insertedInto c (RemovePath p # acts) = insertedInto c acts"
  "insertedInto c (Dispatch i # acts) = insertedInto c acts"
  by (auto simp: insertedInto_def)

lemma insertedInto_tryLoadModule [simp]: "insertedInto c (tryLoadModule w fsType) = {}"
  by (simp add: insertedInto_def)

text \<open>The loop over the filesystem types.\<close>

lemma tryFsTypes_host:
  assumes "tryFsTypes isoFile mountPoint ts w = (ok, acts, w')"
  shows "euid w' = euid w \<and> entries w' = entries w \<and> mkdir_error w' = mkdir_error w
         \<and> system_ret w' = system_ret w \<and> context_ok w' = context_ok w \<and> mount_ret w' = mount_ret w
         \<and> createdDirectories acts = []
         \<and> (\<not> ok \<longrightarrow> f_flag w' = f_flag w)"
  using assms
proof (induction ts arbitrary: ok acts w')
  case Nil
  then show ?case by auto
next
  case (Cons t ts)
  then show ?case
    by (auto simp: mounted_at_def split: if_splits prod.splits)
qed

lemma tryFsTypes_sets:
  assumes "tryFsTypes isoFile mountPoint ts w = (ok, acts, w')"
  shows "outcomeSet c w' = outcomeSet c w \<union> insertedInto c acts"
  using assms
proof (induction ts arbitrary: ok acts w')
  case Nil
  then show ?case by auto
next
  case (Cons t ts)
  show ?case
  proof (cases "\<not> context_ok w isoFile t")
    case True
    with Cons.prems show ?thesis
      by (cases c) auto
  next
    case ctx: False
    show ?thesis
    proof (cases "mount_ret w isoFile mountPoint t = 0")
      case True
      with ctx Cons.prems show ?thesis
        by (cases c) (auto simp: mounted_at_def)
    next
      case False
      obtain ok2 acts2 w2 where r: "tryFsTypes isoFile mountPoint ts w = (ok2, acts2, w2)"
        by (cases "tryFsTypes isoFile mountPoint ts w") auto
      with ctx False Cons.prems have "w' = w2" "acts = tryLoadModule w t @ [NewContext, MountCall isoFile mountPoint t] @ acts2"
        by auto
      with Cons.IH[OF r] show ?thesis
        by simp
    qed
  qed
qed

lemma tryFsTypes_classes:
  assumes "tryFsTypes isoFile mountPoint ts w = (ok, acts, w')"
  shows "(\<forall>x \<in> set (insertions acts). fst x = (if ok then Mounted else Failed))
         \<and> (ok \<longrightarrow> insertions acts \<noteq> [])"
  using assms
proof (induction ts arbitrary: ok acts w')
  case Nil
  then show ?case by auto
next
  case (Cons t ts)
  show ?case
  proof (cases "context_ok w isoFile t \<and> mount_ret w isoFile mountPoint t \<noteq> 0")
    case False
    with Cons.prems show ?thesis
      by (auto split: if_splits)
  next
    case True
    obtain ok2 acts2 w2 where r: "tryFsTypes isoFile mountPoint ts w = (ok2, acts2, w2)"
      by (cases "tryFsTypes isoFile mountPoint ts w") auto
    with True Cons.prems have "ok = ok2" "acts = tryLoadModule w t @ [NewContext, MountCall isoFile mountPoint t] @ acts2"
      by auto
    with Cons.IH[OF r] show ?thesis
      by simp
  qed
qed

lemma tryFsTypes_all_fail:
  assumes "tryFsTypes isoFile mountPoint ts w = (ok, acts, w')"
    and "\<forall>t \<in> set ts. mount_ret w isoFile mountPoint t \<noteq> 0"
  shows "\<not> ok"
  using assms
proof (induction ts arbitrary: ok acts w')
  case Nil
  then show ?case by auto
next
  case (Cons t ts)
  then show ?case
    by (auto split: if_splits prod.splits)
qed

lemma mountIsoFile_single: "mountIsoFile hasher [isoFile] w = mountOne hasher isoFile w"
  by (cases "mountOne hasher isoFile w" rule: prod_cases3) (auto split: option.split)

lemma fs_exists_absent:
  assumes "entries w p = None"
  shows "fs_exists w p = Inr False"
  using assms by (simp add: fs_exists_def)

lemma fs_exists_present:
  assumes "entries w p = Some e" and "e \<noteq> Inaccessible"
  shows "fs_exists w p = Inr True"
  using assms by (cases e) (simp_all add: fs_exists_def)

lemma fs_remove_sets:
  assumes "fs_remove p w = Inr w'"
  shows "outcomeSet c w' = outcomeSet c w"
  using assms by (cases c) (auto simp: fs_remove_def split: option.splits entry.splits)

lemma fs_remove_gone:
  assumes "fs_remove p w = Inr w'"
  shows "entries w' p = None"
  using assms by (auto simp: fs_remove_def split: option.splits entry.splits)

lemma fs_remove_empty:
  assumes "entries w p = Some EmptyDir"
  shows "\<exists>w'. fs_remove p w = Inr w'"
  using assms by (simp add: fs_remove_def)

lemma outcomeSet_entries [simp]: "outcomeSet c (w\<lparr>entries := x\<rparr>) = outcomeSet c w"
  by (cases c) simp_all

lemma finishMount_sets:
  assumes "finishMount isoFile mountPoint (ok, acts, w1) = (e, acts', w')"
    and "outcomeSet c w1 = S \<union> insertedInto c acts"
  shows "outcomeSet c w' = S \<union> insertedInto c acts'"
proof (cases ok)
  case True
  with assms show ?thesis by (simp add: finishMount_def)
next
  case False
  show ?thesis
  proof (cases "fs_remove mountPoint w1")
    case (Inl x)
    with False assms show ?thesis
      by (auto simp: finishMount_def)
  next
    case (Inr w2)
    with False assms fs_remove_sets[OF Inr, of c] show ?thesis
      by (cases c) (auto simp: finishMount_def)
  qed
qed

lemma finishMount_classes:
  assumes "finishMount isoFile mountPoint (ok, acts, w1) = (e, acts', w')"
    and "\<forall>x \<in> set (insertions acts). fst x = (if ok then Mounted else Failed)"
    and "ok \<longrightarrow> insertions acts \<noteq> []"
  shows "(\<forall>x \<in> set (insertions acts'). fst x = (if ok then Mounted else Failed))
         \<and> (e = None \<longrightarrow> insertions acts' \<noteq> [])"
  using assms by (auto simp: finishMount_def split: if_splits sum.splits)

lemma mountOne_sets:
  assumes "mountOne hasher isoFile w = (e, acts, w')"
  shows "outcomeSet c w' = outcomeSet c w \<union> insertedInto c acts"
proof -
  let ?mp = "mountPointOf hasher isoFile"
  consider (skip) "isAlreadyMounted w ?mp"
    | (noroot) "\<not> isAlreadyMounted w ?mp" "euid w \<noteq> 0"
    | (raised) x where "\<not> isAlreadyMounted w ?mp" "euid w = 0" "fs_exists w ?mp = Inl x"
    | (nomkdir) what where "\<not> isAlreadyMounted w ?mp" "euid w = 0" "fs_exists w ?mp = Inr False" "mkdir_error w ?mp = Some what"
    | (mkdir) "\<not> isAlreadyMounted w ?mp" "euid w = 0" "fs_exists w ?mp = Inr False" "mkdir_error w ?mp = None"
    | (present) "\<not> isAlreadyMounted w ?mp" "euid w = 0" "fs_exists w ?mp = Inr True"
    by (cases "fs_exists w ?mp"; cases "mkdir_error w ?mp") auto
  then show ?thesis
  proof cases
    case skip
    with assms show ?thesis by (cases c) (auto simp: mountOne_def Let_def)
  next
    case noroot
    with assms show ?thesis by (cases c) (auto simp: mountOne_def Let_def)
  next
    case raised
    with assms show ?thesis by (cases c) (auto simp: mountOne_def Let_def)
  next
    case nomkdir
    with assms show ?thesis by (cases c) (auto simp: mountOne_def Let_def)
  next
    case mkdir
    let ?w1 = "w\<lparr>entries := (entries w)(?mp \<mapsto> EmptyDir)\<rparr>"
    obtain ok a1 w1 where t: "tryFsTypes isoFile ?mp fsTypes ?w1 = (ok, a1, w1)"
      by (cases "tryFsTypes isoFile ?mp fsTypes ?w1") auto
    obtain e2 a2 w2 where f: "finishMount isoFile ?mp (ok, a1, w1) = (e2, a2, w2)"
      by (cases "finishMount isoFile ?mp (ok, a1, w1)") auto
    from assms mkdir t f have eq: "w' = w2"
      "acts = [Statvfs ?mp, Geteuid, Exists ?mp, CreateDirectory ?mp] @ a2"
      by (auto simp: mountOne_def Let_def)
    have "outcomeSet c w1 = outcomeSet c w \<union> insertedInto c a1"
      using tryFsTypes_sets[OF t, of c] by simp
    from finishMount_sets[OF f this] eq show ?thesis by simp
  next
    case present
    obtain ok a1 w1 where t: "tryFsTypes isoFile ?mp fsTypes w = (ok, a1, w1)"
      by (cases "tryFsTypes isoFile ?mp fsTypes w") auto
    obtain e2 a2 w2 where f: "finishMount isoFile ?mp (ok, a1, w1) = (e2, a2, w2)"
      by (cases "finishMount isoFile ?mp (ok, a1, w1)") auto
    from assms present t f have eq: "w' = w2"
      "acts = [Statvfs ?mp, Geteuid, Exists ?mp] @ a2"
      by (auto simp: mountOne_def Let_def)
    from finishMount_sets[OF f tryFsTypes_sets[OF t, of c]] eq show ?thesis by simp
  qed
qed

lemma mountOne_classes:
  assumes "mountOne hasher isoFile w = (e, acts, w')"
  shows "\<exists>c. c \<noteq> InputError \<and> (\<forall>x \<in> set (insertions acts). fst x = c)
              \<and> (e = None \<longrightarrow> insertions acts \<noteq> [])"
proof -
  let ?mp = "mountPointOf hasher isoFile"
  consider (skip) "isAlreadyMounted w ?mp"
    | (noroot) "\<not> isAlreadyMounted w ?mp" "euid w \<noteq> 0"
    | (raised) x where "\<not> isAlreadyMounted w ?mp" "euid w = 0" "fs_exists w ?mp = Inl x"
    | (nomkdir) what where "\<not> isAlreadyMounted w ?mp" "euid w = 0" "fs_exists w ?mp = Inr False" "mkdir_error w ?mp = Some what"
    | (mkdir) "\<not> isAlreadyMounted w ?mp" "euid w = 0" "fs_exists w ?mp = Inr False" "mkdir_error w ?mp = None"
    | (present) "\<not> isAlreadyMounted w ?mp" "euid w = 0" "fs_exists w ?mp = Inr True"
    by (cases "fs_exists w ?mp"; cases "mkdir_error w ?mp") auto
  then show ?thesis
  proof cases
    case skip
    with assms have "insertions acts = [(Skipped, skippedMessageOf isoFile ?mp)]" "e = None"
      by (auto simp: mountOne_def Let_def)
    then show ?thesis by auto
  next
    case noroot
    with assms have "insertions acts = [(Failed, rootErrorOf isoFile)]" "e = None"
      by (auto simp: mountOne_def Let_def)
    then show ?thesis by auto
  next
    case raised
    with assms have "insertions acts = []" "e = Some x"
      by (auto simp: mountOne_def Let_def)
    then show ?thesis by auto
  next
    case nomkdir
    with assms have "insertions acts = [(Failed, createErrorOf ?mp what)]" "e = None"
      by (auto simp: mountOne_def Let_def)
    then show ?thesis by auto
  next
    case mkdir
    let ?w1 = "w\<lparr>entries := (entries w)(?mp \<mapsto> EmptyDir)\<rparr>"
    obtain ok a1 w1 where t: "tryFsTypes isoFile ?mp fsTypes ?w1 = (ok, a1, w1)"
      by (cases "tryFsTypes isoFile ?mp fsTypes ?w1") auto
    obtain e2 a2 w2 where f: "finishMount isoFile ?mp (ok, a1, w1) = (e2, a2, w2)"
      by (cases "finishMount isoFile ?mp (ok, a1, w1)") auto
    from assms mkdir t f have eq: "e = e2"
      "acts = [Statvfs ?mp, Geteuid, Exists ?mp, CreateDirectory ?mp] @ a2"
      by (auto simp: mountOne_def Let_def)
    from tryFsTypes_classes[OF t] finishMount_classes[OF f] eq
    have "(\<forall>x \<in> set (insertions acts). fst x = (if ok then Mounted else Failed))
          \<and> (e = None \<longrightarrow> insertions acts \<noteq> [])"
      by simp
    then show ?thesis by (cases ok) auto
  next
    case present
    obtain ok a1 w1 where t: "tryFsTypes isoFile ?mp fsTypes w = (ok, a1, w1)"
      by (cases "tryFsTypes isoFile ?mp fsTypes w") auto
    obtain e2 a2 w2 where f: "finishMount isoFile ?mp (ok, a1, w1) = (e2, a2, w2)"
      by (cases "finishMount isoFile ?mp (ok, a1, w1)") auto
    from assms present t f have eq: "e = e2"
      "acts = [Statvfs ?mp, Geteuid, Exists ?mp] @ a2"
      by (auto simp: mountOne_def Let_def)
    from tryFsTypes_classes[OF t] finishMount_classes[OF f] eq
    have "(\<forall>x \<in> set (insertions acts). fst x = (if ok then Mounted else Failed))
          \<and> (e = None \<longrightarrow> insertions acts \<noteq> [])"
      by simp
    then show ?thesis by (cases ok) auto
  qed
qed

text \<open>
  Claim C3. When \<^verbatim>\<open>isAlreadyMounted\<close> holds of the mount point derived for a candidate,
  \<^verbatim>\<open>mountIsoFile\<close> inserts one message, into the Skipped set, leaves the Mounted and
  Failed sets as they were, creates no directory and makes no mount call.
\<close>

theorem already_mounted_is_skipped_only:
  assumes "isAlreadyMounted w (mountPointOf hasher isoFile)"
  shows "\<exists>acts w'. mountIsoFile hasher [isoFile] w = (None, acts, w')
           \<and> insertions acts = [(Skipped, skippedMessageOf isoFile (mountPointOf hasher isoFile))]
           \<and> createdDirectories acts = [] \<and> mountCalls acts = []
           \<and> skippedMessages w'
               = insert (skippedMessageOf isoFile (mountPointOf hasher isoFile)) (skippedMessages w)
           \<and> mountedFiles w' = mountedFiles w \<and> mountedFails w' = mountedFails w
           \<and> entries w' = entries w"
  using assms unfolding mountIsoFile_single by (simp add: mountOne_def Let_def)

theorem already_mounted_is_skipped_only_witness:
  "isAlreadyMounted
     (exampleHost\<lparr>entries := [''/mnt/iso_a_70000'' \<mapsto> NonEmptyDir], f_flag := (\<lambda>path. ST_RDONLY)\<rparr>)
     (mountPointOf exampleHasher ''/home/u/a.iso'')
   \<and> mountCalls (fst (snd (mountIsoFile exampleHasher [''/home/u/a.iso'']
        (exampleHost\<lparr>entries := [''/mnt/iso_a_70000'' \<mapsto> NonEmptyDir], f_flag := (\<lambda>path. ST_RDONLY)\<rparr>)))) = []
   \<and> mountedFails (snd (snd (mountIsoFile exampleHasher [''/home/u/a.iso'']
        (exampleHost\<lparr>entries := [''/mnt/iso_a_70000'' \<mapsto> NonEmptyDir], f_flag := (\<lambda>path. ST_RDONLY)\<rparr>)))) = {}"
proof -
  let ?w = "exampleHost\<lparr>entries := [''/mnt/iso_a_70000'' \<mapsto> NonEmptyDir], f_flag := (\<lambda>path. ST_RDONLY)\<rparr>"
  have mp: "mountPointOf exampleHasher ''/home/u/a.iso'' = ''/mnt/iso_a_70000''"
    by code_simp
  have h: "isAlreadyMounted ?w (mountPointOf exampleHasher ''/home/u/a.iso'')"
    by (simp add: mp isAlreadyMounted_def statvfs_def ST_RDONLY_def ST_NODEV_def)
  from already_mounted_is_skipped_only[OF h] h show ?thesis
    by (auto simp: exampleHost_def)
qed

lemma mountPoint_example: "mountPointOf exampleHasher ''/home/u/a.iso'' = ''/mnt/iso_a_70000''"
  by code_simp

lemma not_mounted_if_absent:
  assumes "entries w mountPoint = None"
  shows "\<not> isAlreadyMounted w mountPoint"
  using assms by (simp add: isAlreadyMounted_def statvfs_def)

lemma finishMount_failure:
  assumes "fs_remove mountPoint w1 = Inr w2"
  shows "finishMount isoFile mountPoint (False, acts, w1)
         = (None, acts @ [RemovePath mountPoint, Insert Failed (badFsErrorOf isoFile)],
            insertMessage Failed (badFsErrorOf isoFile) w2)"
  using assms by (simp add: finishMount_def)

text \<open>
  Claim C5. For a privileged caller whose mount point does not exist yet and can be
  created: if no filesystem type of the list mounts the image, the directory created for
  the attempt is gone afterwards and the image is in the Failed set with the
  \<^verbatim>\<open>{badFS}\<close> message, and in no other set.
\<close>

theorem exhausted_types_remove_created_directory:
  assumes "euid w = 0"
    and "entries w (mountPointOf hasher isoFile) = None"
    and "mkdir_error w (mountPointOf hasher isoFile) = None"
    and "\<forall>fsType \<in> set fsTypes. mount_ret w isoFile (mountPointOf hasher isoFile) fsType \<noteq> 0"
  shows "\<exists>acts w'. mountIsoFile hasher [isoFile] w = (None, acts, w')
           \<and> createdDirectories acts = [mountPointOf hasher isoFile]
           \<and> entries w' (mountPointOf hasher isoFile) = None
           \<and> last acts = Insert Failed (badFsErrorOf isoFile)
           \<and> badFsErrorOf isoFile \<in> mountedFails w'
           \<and> mountedFiles w' = mountedFiles w \<and> skippedMessages w' = skippedMessages w
           \<and> (\<exists>text. badFsErrorOf isoFile = text @ ''{badFS}'')"
proof -
  let ?mp = "mountPointOf hasher isoFile"
  let ?w1 = "w\<lparr>entries := (entries w)(?mp \<mapsto> EmptyDir)\<rparr>"
  obtain ok a1 w1 where t: "tryFsTypes isoFile ?mp fsTypes ?w1 = (ok, a1, w1)"
    by (cases "tryFsTypes isoFile ?mp fsTypes ?w1") auto
  have "\<forall>fsType \<in> set fsTypes. mount_ret ?w1 isoFile ?mp fsType \<noteq> 0"
    using assms(4) by simp
  from tryFsTypes_all_fail[OF t this] have ok: "\<not> ok" .
  from tryFsTypes_host[OF t] have host: "entries w1 = (entries w)(?mp \<mapsto> EmptyDir)"
    "createdDirectories a1 = []"
    by simp_all
  then obtain w2 where r: "fs_remove ?mp w1 = Inr w2"
    using fs_remove_empty[of w1 ?mp] by auto
  have sets1: "outcomeSet c w1 = outcomeSet c w \<union> insertedInto c a1" for c
    using tryFsTypes_sets[OF t, of c] by simp
  have cls: "\<forall>x \<in> set (insertions a1). fst x = Failed"
    using tryFsTypes_classes[OF t] ok by simp
  then have none: "insertedInto Mounted a1 = {}" "insertedInto Skipped a1 = {}"
    by (auto simp: insertedInto_def)
  let ?acts = "[Statvfs ?mp, Geteuid, Exists ?mp, CreateDirectory ?mp] @ a1
               @ [RemovePath ?mp, Insert Failed (badFsErrorOf isoFile)]"
  let ?w' = "insertMessage Failed (badFsErrorOf isoFile) w2"
  have run: "mountIsoFile hasher [isoFile] w = (None, ?acts, ?w')"
    unfolding mountIsoFile_single
    using assms(1,3) fs_exists_absent[OF assms(2)] not_mounted_if_absent[OF assms(2)] t ok
      finishMount_failure[OF r, of isoFile a1]
    by (simp add: mountOne_def Let_def)
  have "createdDirectories ?acts = [?mp]"
    using host(2) by simp
  moreover have "entries ?w' ?mp = None"
    using fs_remove_gone[OF r] by simp
  moreover have "last ?acts = Insert Failed (badFsErrorOf isoFile)"
    by simp
  moreover have "badFsErrorOf isoFile \<in> mountedFails ?w'"
    by simp
  moreover have "mountedFiles ?w' = mountedFiles w"
    using sets1[of Mounted] fs_remove_sets[OF r, of Mounted] none by simp
  moreover have "skippedMessages ?w' = skippedMessages w"
    using sets1[of Skipped] fs_remove_sets[OF r, of Skipped] none by simp
  moreover have "\<exists>text. badFsErrorOf isoFile = text @ ''{badFS}''"
    unfolding badFsErrorOf_def
    by (rule exI[of _ "ESC @ ''[1;91mFailed to mount: '' @ ESC @ ''[1;93m'' @ sq @ displayName isoFile @ sq @ ''.'' @ ESC @ ''[0;1m ''"]) simp
  ultimately show ?thesis
    using run by blast
qed

theorem exhausted_types_remove_created_directory_witness:
  "euid exampleHost = 0
   \<and> entries exampleHost (mountPointOf exampleHasher ''/home/u/a.iso'') = None
   \<and> createdDirectories (fst (snd (mountIsoFile exampleHasher [''/home/u/a.iso''] exampleHost)))
       = [''/mnt/iso_a_70000'']
   \<and> entries (snd (snd (mountIsoFile exampleHasher [''/home/u/a.iso''] exampleHost)))
       ''/mnt/iso_a_70000'' = None
   \<and> badFsErrorOf ''/home/u/a.iso''
       \<in> mountedFails (snd (snd (mountIsoFile exampleHasher [''/home/u/a.iso''] exampleHost)))"
proof -
  have h: "euid exampleHost = 0"
    "entries exampleHost (mountPointOf exampleHasher ''/home/u/a.iso'') = None"
    "mkdir_error exampleHost (mountPointOf exampleHasher ''/home/u/a.iso'') = None"
    "\<forall>fsType \<in> set fsTypes.
       mount_ret exampleHost ''/home/u/a.iso'' (mountPointOf exampleHasher ''/home/u/a.iso'') fsType \<noteq> 0"
    by (simp_all add: exampleHost_def)
  from exhausted_types_remove_created_directory[OF h] h(1,2) show ?thesis
    by (auto simp: mountPoint_example)
qed

text \<open>
  Claim C10. The removal after a total failure is not restricted to a directory the
  attempt created: an empty directory that was already at the mount point (and not taken
  for a mount) is removed as well, although the attempt created nothing.
\<close>

theorem failed_mount_removes_existing_empty_directory:
  assumes "euid w = 0"
    and "entries w (mountPointOf hasher isoFile) = Some EmptyDir"
    and "f_flag w (mountPointOf hasher isoFile) AND ST_NODEV \<noteq> 0"
    and "\<forall>fsType \<in> set fsTypes. mount_ret w isoFile (mountPointOf hasher isoFile) fsType \<noteq> 0"
  shows "\<exists>acts w'. mountIsoFile hasher [isoFile] w = (None, acts, w')
           \<and> createdDirectories acts = []
           \<and> RemovePath (mountPointOf hasher isoFile) \<in> set acts
           \<and> entries w' = (entries w)(mountPointOf hasher isoFile := None)
           \<and> badFsErrorOf isoFile \<in> mountedFails w'"
proof -
  let ?mp = "mountPointOf hasher isoFile"
  obtain ok a1 w1 where t: "tryFsTypes isoFile ?mp fsTypes w = (ok, a1, w1)"
    by (cases "tryFsTypes isoFile ?mp fsTypes w") auto
  from tryFsTypes_all_fail[OF t assms(4)] have ok: "\<not> ok" .
  from tryFsTypes_host[OF t] have host: "entries w1 = entries w" "createdDirectories a1 = []"
    by simp_all
  have r: "fs_remove ?mp w1 = Inr (w1\<lparr>entries := (entries w1)(?mp := None)\<rparr>)"
    using host(1) assms(2) by (simp add: fs_remove_def)
  let ?acts = "[Statvfs ?mp, Geteuid, Exists ?mp] @ a1
               @ [RemovePath ?mp, Insert Failed (badFsErrorOf isoFile)]"
  let ?w' = "insertMessage Failed (badFsErrorOf isoFile) (w1\<lparr>entries := (entries w1)(?mp := None)\<rparr>)"
  have "\<not> isAlreadyMounted w ?mp"
    using assms(2,3) by (simp add: isAlreadyMounted_def statvfs_def)
  then have run: "mountIsoFile hasher [isoFile] w = (None, ?acts, ?w')"
    unfolding mountIsoFile_single
    using assms(1) fs_exists_present[OF assms(2)] t ok finishMount_failure[OF r, of isoFile a1]
    by (simp add: mountOne_def Let_def)
  have "createdDirectories ?acts = []"
    using host(2) by simp
  moreover have "RemovePath ?mp \<in> set ?acts"
    by simp
  moreover have "entries ?w' = (entries w)(?mp := None)"
    using host(1) by simp
  moreover have "badFsErrorOf isoFile \<in> mountedFails ?w'"
    by simp
  ultimately show ?thesis
    using run by blast
qed

theorem failed_mount_removes_existing_empty_directory_witness:
  "entries (exampleHost\<lparr>entries := [''/mnt/iso_a_70000'' \<mapsto> EmptyDir]\<rparr>)
     (mountPointOf exampleHasher ''/home/u/a.iso'') = Some EmptyDir
   \<and> createdDirectories (fst (snd (mountIsoFile exampleHasher [''/home/u/a.iso'']
        (exampleHost\<lparr>entries := [''/mnt/iso_a_70000'' \<mapsto> EmptyDir]\<rparr>)))) = []
   \<and> entries (snd (snd (mountIsoFile exampleHasher [''/home/u/a.iso'']
        (exampleHost\<lparr>entries := [''/mnt/iso_a_70000'' \<mapsto> EmptyDir]\<rparr>)))) ''/mnt/iso_a_70000'' = None"
proof -
  let ?w = "exampleHost\<lparr>entries := [''/mnt/iso_a_70000'' \<mapsto> EmptyDir]\<rparr>"
  have h: "euid ?w = 0"
    "entries ?w (mountPointOf exampleHasher ''/home/u/a.iso'') = Some EmptyDir"
    "f_flag ?w (mountPointOf exampleHasher ''/home/u/a.iso'') AND ST_NODEV \<noteq> 0"
    "\<forall>fsType \<in> set fsTypes.
       mount_ret ?w ''/home/u/a.iso'' (mountPointOf exampleHasher ''/home/u/a.iso'') fsType \<noteq> 0"
    by (simp_all add: exampleHost_def mountPoint_example ST_NODEV_def)
  from failed_mount_removes_existing_empty_directory[OF h] h(2) show ?thesis
    by (auto simp: mountPoint_example)
qed

text \<open>
  What one turn of the loop does to the shared sets. All its insertions go to one set
  among Mounted, Skipped and Failed, the sets change by exactly these insertions, and a
  turn that completes has inserted a message. A turn that an exception ends need not have
  inserted any.
\<close>

lemma mountIsoFile_one_class:
  assumes "mountIsoFile hasher [isoFile] w = (e, acts, w')"
  shows "\<exists>c. c \<noteq> InputError
           \<and> (\<forall>c'. outcomeSet c' w' = outcomeSet c' w \<union> insertedInto c' acts)
           \<and> (\<forall>c'. c' \<noteq> c \<longrightarrow> insertedInto c' acts = {})
           \<and> (e = None \<longrightarrow> insertedInto c acts \<noteq> {})"
proof -
  from assms have m: "mountOne hasher isoFile w = (e, acts, w')"
    by (simp only: mountIsoFile_single)
  from mountOne_classes[OF m] obtain c where c: "c \<noteq> InputError"
    "\<forall>x \<in> set (insertions acts). fst x = c" "e = None \<longrightarrow> insertions acts \<noteq> []"
    by blast
  have "\<forall>c'. outcomeSet c' w' = outcomeSet c' w \<union> insertedInto c' acts"
    using mountOne_sets[OF m] by blast
  moreover have "\<forall>c'. c' \<noteq> c \<longrightarrow> insertedInto c' acts = {}"
    using c(2) by (auto simp: insertedInto_def)
  moreover have "e = None \<longrightarrow> insertedInto c acts \<noteq> {}"
  proof
    assume "e = None"
    with c(3) obtain x where "x \<in> set (insertions acts)"
      by (cases "insertions acts") auto
    with c(2) show "insertedInto c acts \<noteq> {}"
      by (auto simp: insertedInto_def filter_empty_conv)
  qed
  ultimately show ?thesis
    using c(1) by blast
qed

text \<open>
  The same happens earlier in the turn when the status of the mount point cannot be read:
  \<^verbatim>\<open>statvfs\<close> fails, so the mount point is not taken for a mount, the caller is root,
  and \<^verbatim>\<open>fs::exists\<close> (line 355) raises with nothing inserted.
\<close>

lemma inaccessible_mount_point_raises:
  "fst (mountIsoFile exampleHasher [''/home/u/a.iso'']
        (exampleHost\<lparr>entries := [''/mnt/iso_a_70000'' \<mapsto> Inaccessible]\<rparr>))
     = Some (filesystem_error ''status'')
   \<and> fst (snd (mountIsoFile exampleHasher [''/home/u/a.iso'']
        (exampleHost\<lparr>entries := [''/mnt/iso_a_70000'' \<mapsto> Inaccessible]\<rparr>)))
     = [Statvfs ''/mnt/iso_a_70000'', Geteuid, Exists ''/mnt/iso_a_70000'']
   \<and> fst (processAndMountIsoFiles 4 exampleHasher ''1'' exampleFiles
        (exampleHost\<lparr>entries := [''/mnt/iso_a_70000'' \<mapsto> Inaccessible]\<rparr>)) = Waiting"
  by code_simp

text \<open>
  Claim C6. The claim fails for an image whose turn an exception ends. Root selects the
  first candidate. A directory that is not empty stands at the mount point derived for it,
  on a filesystem mounted \<^verbatim>\<open>nodev\<close>, so that it is not taken for a mount, and no
  filesystem type mounts the image. Then \<^verbatim>\<open>fs::remove\<close> (line 427) raises before the
  insertion of line 430. The image was handed to \<^verbatim>\<open>mountIsoFile\<close> and all seven mounts
  were attempted, yet none of the four sets holds a message for it; the task does not count
  itself completed, and the call stays in the wait of line 627.
\<close>

theorem occupied_mount_point_leaves_image_in_no_set:
  "fst (mountIsoFile exampleHasher [''/home/u/a.iso'']
        (exampleHost\<lparr>entries := [''/mnt/iso_a_70000'' \<mapsto> NonEmptyDir]\<rparr>))
     = Some (filesystem_error ''Directory not empty'')
   \<and> last (fst (snd (mountIsoFile exampleHasher [''/home/u/a.iso'']
        (exampleHost\<lparr>entries := [''/mnt/iso_a_70000'' \<mapsto> NonEmptyDir]\<rparr>))))
     = RemovePath ''/mnt/iso_a_70000''
   \<and> insertions (fst (snd (mountIsoFile exampleHasher [''/home/u/a.iso'']
        (exampleHost\<lparr>entries := [''/mnt/iso_a_70000'' \<mapsto> NonEmptyDir]\<rparr>)))) = []
   \<and> fst (processAndMountIsoFiles 4 exampleHasher ''1'' exampleFiles
        (exampleHost\<lparr>entries := [''/mnt/iso_a_70000'' \<mapsto> NonEmptyDir]\<rparr>)) = Waiting
   \<and> dispatchedIndices (fst (snd (processAndMountIsoFiles 4 exampleHasher ''1'' exampleFiles
        (exampleHost\<lparr>entries := [''/mnt/iso_a_70000'' \<mapsto> NonEmptyDir]\<rparr>)))) = [1]
   \<and> length (mountCalls (fst (snd (processAndMountIsoFiles 4 exampleHasher ''1'' exampleFiles
        (exampleHost\<lparr>entries := [''/mnt/iso_a_70000'' \<mapsto> NonEmptyDir]\<rparr>))))) = 7
   \<and> insertions (fst (snd (processAndMountIsoFiles 4 exampleHasher ''1'' exampleFiles
        (exampleHost\<lparr>entries := [''/mnt/iso_a_70000'' \<mapsto> NonEmptyDir]\<rparr>)))) = []
   \<and> mountedFiles (snd (snd (snd (processAndMountIsoFiles 4 exampleHasher ''1'' exampleFiles
        (exampleHost\<lparr>entries := [''/mnt/iso_a_70000'' \<mapsto> NonEmptyDir]\<rparr>))))) = {}
   \<and> skippedMessages (snd (snd (snd (processAndMountIsoFiles 4 exampleHasher ''1'' exampleFiles
        (exampleHost\<lparr>entries := [''/mnt/iso_a_70000'' \<mapsto> NonEmptyDir]\<rparr>))))) = {}
   \<and> mountedFails (snd (snd (snd (processAndMountIsoFiles 4 exampleHasher ''1'' exampleFiles
        (exampleHost\<lparr>entries := [''/mnt/iso_a_70000'' \<mapsto> NonEmptyDir]\<rparr>))))) = {}
   \<and> uniqueErrorMessages (snd (snd (snd (processAndMountIsoFiles 4 exampleHasher ''1'' exampleFiles
        (exampleHost\<lparr>entries := [''/mnt/iso_a_70000'' \<mapsto> NonEmptyDir]\<rparr>))))) = {}
   \<and> completedTasks (fst (snd (snd (processAndMountIsoFiles 4 exampleHasher ''1'' exampleFiles
        (exampleHost\<lparr>entries := [''/mnt/iso_a_70000'' \<mapsto> NonEmptyDir]\<rparr>))))) = 0
   \<and> activeTaskCount (fst (snd (snd (processAndMountIsoFiles 4 exampleHasher ''1'' exampleFiles
        (exampleHost\<lparr>entries := [''/mnt/iso_a_70000'' \<mapsto> NonEmptyDir]\<rparr>))))) = 1"
  by code_simp

section \<open>Properties of the orchestration\<close>

lemma stoi_range:
  assumes "stoi s = Inr v"
  shows "- (2 ^ 31) \<le> v \<and> v \<le> 2 ^ 31 - 1"
  using assms by (auto simp: stoi_def Let_def split: if_splits)

lemma to_size_t_small:
  assumes "0 \<le> v" and "v < 2 ^ 64"
  shows "to_size_t v = nat v"
  using assms by (simp add: to_size_t_def)

lemma rangeList_bounds:
  assumes "i \<in> set (rangeList a b)"
  shows "min a b \<le> i \<and> i \<le> max a b"
  using assms by (auto simp: rangeList_def split: if_splits)

lemma initialLocals_consistent: "tasksConsistent n initialLocals"
  by (simp add: tasksConsistent_def initialLocals_def)

lemma submitIndex_consistent:
  assumes "tasksConsistent n st" and "1 \<le> i" and "i \<le> int n"
  shows "tasksConsistent n (submitIndex i st)"
  using assms by (auto simp: tasksConsistent_def submitIndex_def)

lemma fold_submitIndex_consistent:
  assumes "tasksConsistent n st" and "\<forall>i \<in> set js. 1 \<le> i \<and> i \<le> int n"
  shows "tasksConsistent n (fold submitIndex js st)"
  using assms
proof (induction js arbitrary: st)
  case Nil
  then show ?case by simp
next
  case (Cons j js)
  then show ?case by (simp add: submitIndex_consistent)
qed

lemma addError_consistent:
  assumes "tasksConsistent n st"
  shows "tasksConsistent n (addError error st)"
  using assms by (simp add: tasksConsistent_def addError_def)

lemma processedRanges_consistent:
  "tasksConsistent n (st\<lparr>processedRanges := r\<rparr>) = tasksConsistent n st"
  by (simp add: tasksConsistent_def)

lemma processRange_consistent:
  assumes "tasksConsistent n st" and "start < 2 ^ 64" and "end' < 2 ^ 64"
  shows "tasksConsistent n (processRange n start end' st)"
proof (cases "start < 1 \<or> to_size_t start > n \<or> end' < 1 \<or> to_size_t end' > n")
  case True
  then show ?thesis
    using assms(1) by (simp add: processRange_def addError_consistent)
next
  case False
  then have b: "1 \<le> start" "start \<le> int n" "1 \<le> end'" "end' \<le> int n"
    using assms(2,3) to_size_t_small[of start] to_size_t_small[of end'] by auto
  have "\<forall>i \<in> set (rangeList start end'). 1 \<le> i \<and> i \<le> int n"
  proof
    fix i
    assume "i \<in> set (rangeList start end')"
    from rangeList_bounds[OF this] b show "1 \<le> i \<and> i \<le> int n"
      by linarith
  qed
  then show ?thesis
    using False assms(1)
    by (simp add: processRange_def fold_submitIndex_consistent processedRanges_consistent)
qed

lemma processToken_consistent:
  assumes "tasksConsistent n st" and "processToken n token st = Inr st'"
  shows "tasksConsistent n st'"
proof -
  have small: "\<And>s v. stoi s = Inr v \<Longrightarrow> v < 2 ^ 64"
    using stoi_range by fastforce
  have range: "\<And>a b. stoi a = Inr start \<Longrightarrow> stoi b = Inr end' \<Longrightarrow>
       tasksConsistent n (processRange n start end' st)" for start end'
    using small assms(1) processRange_consistent by blast
  have single: "\<And>num. stoi token = Inr num \<Longrightarrow> 1 \<le> num \<Longrightarrow> to_size_t num \<le> n \<Longrightarrow>
       tasksConsistent n (submitIndex num st)"
  proof -
    fix num
    assume a: "stoi token = Inr num" "1 \<le> num" "to_size_t num \<le> n"
    then have "num \<le> int n"
      using small[OF a(1)] to_size_t_small[of num] by auto
    with a(2) assms(1) show "tasksConsistent n (submitIndex num st)"
      by (simp add: submitIndex_consistent)
  qed
  show ?thesis
    using assms range single
    by (auto simp: processToken_def addError_consistent
        split: if_splits option.splits sum.splits exn.splits)
qed

lemma processTokens_consistent:
  assumes "tasksConsistent n st" and "processTokens n ts st = (thrown, st')"
  shows "tasksConsistent n st'"
  using assms
proof (induction ts arbitrary: st)
  case Nil
  then show ?case by simp
next
  case (Cons t ts)
  then show ?case
    by (auto split: if_splits sum.splits dest: processToken_consistent)
qed

text \<open>The workers.\<close>

lemma tryFsTypes_no_dispatch [simp]:
  "dispatchedIndices (fst (snd (tryFsTypes isoFile mountPoint ts w))) = []"
  by (induction ts) (auto split: prod.splits)

lemma finishMount_no_dispatch:
  "dispatchedIndices (fst (snd (finishMount isoFile mountPoint r))) = dispatchedIndices (fst (snd r))"
  by (cases r rule: prod_cases3) (auto simp: finishMount_def split: sum.splits)

lemma mountOne_no_dispatch [simp]:
  "dispatchedIndices (fst (snd (mountOne hasher isoFile w))) = []"
  by (simp add: mountOne_def Let_def case_prod_beta finishMount_no_dispatch
      split: option.split sum.split bool.split)

lemma processTask_effect:
  assumes "processTask hasher isoFiles i st w = (acts, st', w')"
  shows "dispatchedIndices acts = (if i \<in> validIndices st then [] else [i])
         \<and> validIndices st' = insert i (validIndices st)
         \<and> processedIndices st' = processedIndices st
         \<and> errorQueue st' = errorQueue st
         \<and> pending st' = pending st"
proof -
  obtain e a1 w1 where m: "mountOne hasher (isoFiles ! nat (i - 1)) w = (e, a1, w1)"
    by (cases "mountOne hasher (isoFiles ! nat (i - 1)) w") auto
  have "dispatchedIndices a1 = []"
    using mountOne_no_dispatch[of hasher "isoFiles ! nat (i - 1)" w] m by simp
  with assms m show ?thesis
    unfolding processTask_def mountIsoFile_single
    by (auto simp: Let_def taskDone_def split: if_splits option.splits)
qed

lemma processTask_counts:
  assumes "processTask hasher isoFiles i st w = (acts, st', w')"
  shows "totalTasks st' = totalTasks st
         \<and> completedTasks st' + activeTaskCount st' = completedTasks st + activeTaskCount st
         \<and> isProcessingComplete st' = isProcessingComplete st
         \<and> progressThread st' = progressThread st"
proof -
  obtain e a1 w1 where m: "mountOne hasher (isoFiles ! nat (i - 1)) w = (e, a1, w1)"
    by (cases "mountOne hasher (isoFiles ! nat (i - 1)) w") auto
  with assms show ?thesis
    unfolding processTask_def mountIsoFile_single
    by (auto simp: Let_def taskDone_def split: if_splits option.splits)
qed

lemma runTasks_counts:
  assumes "runTasks hasher isoFiles q st w = (acts, st', w')"
  shows "totalTasks st' = totalTasks st
         \<and> completedTasks st' + activeTaskCount st' = completedTasks st + activeTaskCount st
         \<and> isProcessingComplete st' = isProcessingComplete st
         \<and> progressThread st' = progressThread st"
  using assms
proof (induction q arbitrary: st w acts st' w')
  case Nil
  then show ?case by simp
next
  case (Cons i q)
  obtain a1 st1 w1 where p: "processTask hasher isoFiles i st w = (a1, st1, w1)"
    by (cases "processTask hasher isoFiles i st w") auto
  obtain a2 st2 w2 where r: "runTasks hasher isoFiles q st1 w1 = (a2, st2, w2)"
    by (cases "runTasks hasher isoFiles q st1 w1") auto
  from Cons.prems p r have eq: "st' = st2"
    by simp
  from processTask_counts[OF p] Cons.IH[OF r] show ?case
    unfolding eq by simp
qed

lemma runPool_counts:
  assumes "runPool numThreads hasher isoFiles st w = (acts, st', w')"
  shows "totalTasks st' = totalTasks st
         \<and> completedTasks st' + activeTaskCount st' = completedTasks st + activeTaskCount st
         \<and> isProcessingComplete st' = isProcessingComplete st
         \<and> progressThread st' = progressThread st"
proof (cases "numThreads = 0")
  case True
  with assms show ?thesis by (simp add: runPool_def)
next
  case False
  with assms have "runTasks hasher isoFiles (pending st) st w = (acts, st', w')"
    by (simp add: runPool_def)
  from runTasks_counts[OF this] show ?thesis .
qed

lemma awaitTasks_effect:
  assumes "awaitTasks st = (r, st')"
  shows "processedIndices st' = processedIndices st \<and> pending st' = pending st
         \<and> totalTasks st' = totalTasks st \<and> completedTasks st' = completedTasks st
         \<and> activeTaskCount st' = activeTaskCount st \<and> errorQueue st' = errorQueue st
         \<and> r = (if processedIndices st \<noteq> {} \<and> activeTaskCount st \<noteq> 0 then Waiting else Returned)"
  using assms by (auto simp: awaitTasks_def joinProgress_def Let_def split: if_splits)

lemma awaitTasks_thread:
  assumes "awaitTasks st = (Returned, st')"
  shows "if processedIndices st = {}
         then isProcessingComplete st' = isProcessingComplete st
              \<and> progressThread st' = progressThread st
         else isProcessingComplete st' \<and> progressThread st' = Joined"
  using assms by (auto simp: awaitTasks_def joinProgress_def Let_def split: if_splits)

text \<open>
  The next lemma holds of every list of tasks and every set of indices already marked
  valid, so it does not depend on the order in which the pool takes the tasks up.
\<close>

lemma runTasks_dispatch:
  assumes "runTasks hasher isoFiles q st w = (acts, st', w')"
  shows "validIndices st' = validIndices st \<union> set q
         \<and> distinct (dispatchedIndices acts)
         \<and> set (dispatchedIndices acts) = set q - validIndices st
         \<and> processedIndices st' = processedIndices st
         \<and> errorQueue st' = errorQueue st
         \<and> pending st' = pending st"
  using assms
proof (induction q arbitrary: st w acts st' w')
  case Nil
  then show ?case by simp
next
  case (Cons i q)
  obtain a1 st1 w1 where p: "processTask hasher isoFiles i st w = (a1, st1, w1)"
    by (cases "processTask hasher isoFiles i st w") auto
  obtain a2 st2 w2 where r: "runTasks hasher isoFiles q st1 w1 = (a2, st2, w2)"
    by (cases "runTasks hasher isoFiles q st1 w1") auto
  from Cons.prems p r have eq: "acts = a1 @ a2" "st' = st2" "w' = w2"
    by simp_all
  note e1 = processTask_effect[OF p]
  note e2 = Cons.IH[OF r]
  show ?case
    using e1 e2 unfolding eq by (auto split: if_splits)
qed

lemma runPool_dispatch:
  assumes "tasksConsistent n st"
    and "runPool numThreads hasher isoFiles st w = (acts, st', w')"
  shows "distinct (dispatchedIndices acts)
         \<and> set (dispatchedIndices acts) \<subseteq> processedIndices st
         \<and> processedIndices st' = processedIndices st
         \<and> errorQueue st' = errorQueue st
         \<and> (numThreads \<noteq> 0 \<longrightarrow> set (dispatchedIndices acts) = processedIndices st)
         \<and> (numThreads = 0 \<longrightarrow> acts = [] \<and> st' = st \<and> w' = w)"
proof (cases "numThreads = 0")
  case True
  with assms(2) show ?thesis by (simp add: runPool_def)
next
  case False
  with assms(2) have "runTasks hasher isoFiles (pending st) st w = (acts, st', w')"
    by (simp add: runPool_def)
  from runTasks_dispatch[OF this] assms(1) False show ?thesis
    by (simp add: tasksConsistent_def)
qed

lemma reportErrors_effect:
  assumes "reportErrors es w = (acts, w')"
  shows "dispatchedIndices acts = [] \<and> mountCalls acts = [] \<and> createdDirectories acts = []
         \<and> mountedFiles w' = mountedFiles w \<and> skippedMessages w' = skippedMessages w
         \<and> mountedFails w' = mountedFails w
         \<and> uniqueErrorMessages w' = uniqueErrorMessages w \<union> set es
         \<and> insertions acts = map (Pair InputError) es"
  using assms
proof (induction es arbitrary: w acts w')
  case Nil
  then show ?case by simp
next
  case (Cons e es)
  obtain a2 w2 where r: "reportErrors es (insertMessage InputError e w) = (a2, w2)"
    by (cases "reportErrors es (insertMessage InputError e w)") auto
  with Cons.prems have eq: "acts = Insert InputError e # a2" "w' = w2"
    by simp_all
  from Cons.IH[OF r] show ?case
    unfolding eq by auto
qed

lemma processAndMountIsoFiles_cases:
  assumes "processAndMountIsoFiles maxThreads hasher input isoFiles w = (r, acts, st, w')"
  obtains
    (early) e where
      "countTokens maxThreads (length isoFiles) (tokenize input) {} = Inl e"
      "r = Threw e" "acts = []" "st = initialLocals" "w' = w"
  | (threw) tokens st0 e where
      "countTokens maxThreads (length isoFiles) (tokenize input) {} = Inr tokens"
      "processTokens (length isoFiles) (tokenize input) initialLocals = (Some e, st0)"
      "runPool (min (card tokens) maxThreads) hasher isoFiles st0 w = (acts, st, w')"
      "r = Threw e"
  | (finished) tokens st0 a1 st1 w1 a2 where
      "countTokens maxThreads (length isoFiles) (tokenize input) {} = Inr tokens"
      "processTokens (length isoFiles) (tokenize input) initialLocals = (None, st0)"
      "runPool (min (card tokens) maxThreads) hasher isoFiles st0 w = (a1, st1, w1)"
      "reportErrors (errorQueue st1) w1 = (a2, w')"
      "acts = a1 @ a2"
      "awaitTasks st1 = (r, st)"
proof (cases "countTokens maxThreads (length isoFiles) (tokenize input) {}")
  case (Inl e)
  with assms show ?thesis
    by (intro early[of e]) (simp_all add: processAndMountIsoFiles_def)
next
  case (Inr tokens)
  obtain thrown st0 where p: "processTokens (length isoFiles) (tokenize input) initialLocals = (thrown, st0)"
    by (cases "processTokens (length isoFiles) (tokenize input) initialLocals") auto
  obtain a1 st1 w1 where q: "runPool (min (card tokens) maxThreads) hasher isoFiles st0 w = (a1, st1, w1)"
    by (cases "runPool (min (card tokens) maxThreads) hasher isoFiles st0 w") auto
  show ?thesis
  proof (cases thrown)
    case (Some e)
    with assms Inr p q show ?thesis
      by (intro threw[of tokens e st0]) (simp_all add: processAndMountIsoFiles_def Let_def)
  next
    case None
    obtain a2 w2 where e: "reportErrors (errorQueue st1) w1 = (a2, w2)"
      by (cases "reportErrors (errorQueue st1) w1") auto
    obtain r2 st2 where t: "awaitTasks st1 = (r2, st2)"
      by (cases "awaitTasks st1") auto
    have "(r, acts, st, w') = (r2, a1 @ a2, st2, w2)"
      using assms Inr p q None e t
      by (simp add: processAndMountIsoFiles_def Let_def)
    then have eqs: "r = r2" "acts = a1 @ a2" "st = st2" "w' = w2"
      by (simp_all only: prod.inject)
    show ?thesis
      using Inr p q None e t eqs by (intro finished[of tokens st0 a1 st1 w1 a2]) simp_all
  qed
qed

text \<open>
  Claim C1. Whatever the selection string, and however its tokens overlap, no index is
  handed to \<^verbatim>\<open>mountIsoFile\<close> twice in one call; every index handed over lies between 1
  and the number of candidates and is one of the resolved indices; and when the call
  returns, every resolved index has been handed over, so exactly once.
\<close>

theorem each_index_dispatched_at_most_once:
  assumes "processAndMountIsoFiles maxThreads hasher input isoFiles w = (r, acts, st, w')"
  shows "distinct (dispatchedIndices acts)
         \<and> (\<forall>i \<in> set (dispatchedIndices acts). 1 \<le> i \<and> i \<le> int (length isoFiles))
         \<and> set (dispatchedIndices acts) \<subseteq> processedIndices st
         \<and> (r = Returned \<longrightarrow> set (dispatchedIndices acts) = processedIndices st)"
  using assms
proof (cases rule: processAndMountIsoFiles_cases)
  case (early e)
  then show ?thesis by simp
next
  case (threw tokens st0 e)
  have c: "tasksConsistent (length isoFiles) st0"
    using processTokens_consistent[OF initialLocals_consistent threw(2)] .
  from runPool_dispatch[OF c threw(3)] c threw(4) show ?thesis
    by (auto simp: tasksConsistent_def)
next
  case (finished tokens st0 a1 st1 w1 a2)
  have c: "tasksConsistent (length isoFiles) st0"
    using processTokens_consistent[OF initialLocals_consistent finished(2)] .
  note d = runPool_dispatch[OF c finished(3)]
  note t = awaitTasks_effect[OF finished(6)]
  have same: "processedIndices st = processedIndices st0"
    using d t by simp
  have a: "dispatchedIndices acts = dispatchedIndices a1"
    using reportErrors_effect[OF finished(4)] finished(5) by simp
  have range: "\<forall>i \<in> processedIndices st0. 1 \<le> i \<and> i \<le> int (length isoFiles)"
    using c by (simp add: tasksConsistent_def)
  have all: "set (dispatchedIndices a1) = processedIndices st0" if "r = Returned"
  proof (cases "min (card tokens) maxThreads = 0")
    case False
    with d show ?thesis by simp
  next
    case True
    with d have idle: "a1 = []" "st1 = st0" by simp_all
    from that t have "processedIndices st1 = {} \<or> activeTaskCount st1 = 0"
      by (simp split: if_splits)
    then have "processedIndices st0 = {}"
      using c idle by (auto simp: tasksConsistent_def)
    with idle show ?thesis by simp
  qed
  from d range all show ?thesis
    unfolding a same by auto
qed

theorem each_index_dispatched_at_most_once_witness:
  "dispatchedIndices (fst (snd (processAndMountIsoFiles 4 exampleHasher ''1-3 2-5'' exampleFiles exampleHost)))
     = [1, 2, 3, 4, 5]
   \<and> distinct (dispatchedIndices (fst (snd (processAndMountIsoFiles 4 exampleHasher ''1-3 2-5'' exampleFiles exampleHost))))"
proof -
  let ?r = "processAndMountIsoFiles 4 exampleHasher ''1-3 2-5'' exampleFiles exampleHost"
  have v: "dispatchedIndices (fst (snd ?r)) = [1, 2, 3, 4, 5]"
    by code_simp
  have "?r = (fst ?r, fst (snd ?r), fst (snd (snd ?r)), snd (snd (snd ?r)))"
    by simp
  from each_index_dispatched_at_most_once[OF this] v show ?thesis
    by blast
qed

text \<open>An unprivileged caller.\<close>

lemma isAlreadyMounted_host:
  assumes "entries w' = entries w" and "f_flag w' = f_flag w"
  shows "isAlreadyMounted w' p = isAlreadyMounted w p"
  using assms by (simp add: isAlreadyMounted_def statvfs_def split: option.split entry.split)

lemma mountOne_unprivileged:
  assumes "euid w \<noteq> 0" and "mountOne hasher isoFile w = (e, acts, w')"
  shows "e = None \<and> mountCalls acts = [] \<and> createdDirectories acts = []
         \<and> euid w' = euid w \<and> entries w' = entries w \<and> f_flag w' = f_flag w
         \<and> landsUnprivileged hasher w isoFile w'"
  using assms by (auto simp: mountOne_def Let_def landsUnprivileged_def split: if_splits)

lemma mountOne_grows:
  assumes "mountOne hasher isoFile w = (e, acts, w')"
  shows "outcomeSet c w \<subseteq> outcomeSet c w'"
  using mountOne_sets[OF assms, of c] by simp

lemma processTask_unprivileged:
  assumes "euid w \<noteq> 0" and "processTask hasher isoFiles i st w = (acts, st', w')"
  shows "mountCalls acts = []
         \<and> euid w' = euid w \<and> entries w' = entries w \<and> f_flag w' = f_flag w
         \<and> (\<forall>c. outcomeSet c w \<subseteq> outcomeSet c w')
         \<and> (i \<notin> validIndices st \<longrightarrow> landsUnprivileged hasher w (isoFiles ! nat (i - 1)) w')"
proof (cases "i \<in> validIndices st")
  case True
  with assms(2) show ?thesis
    by (simp add: processTask_def Let_def)
next
  case False
  obtain e a1 w1 where m: "mountOne hasher (isoFiles ! nat (i - 1)) w = (e, a1, w1)"
    by (cases "mountOne hasher (isoFiles ! nat (i - 1)) w") auto
  note u = mountOne_unprivileged[OF assms(1) m]
  from assms(2) False m u have eq: "acts = Dispatch i # a1" "w' = w1"
    unfolding processTask_def mountIsoFile_single by (simp_all add: Let_def)
  from u mountOne_grows[OF m] False show ?thesis
    unfolding eq by simp
qed

lemma landsUnprivileged_mono:
  assumes "landsUnprivileged hasher w isoFile w1"
    and "\<forall>c. outcomeSet c w1 \<subseteq> outcomeSet c w2"
  shows "landsUnprivileged hasher w isoFile w2"
proof -
  from assms(2) have "skippedMessages w1 \<subseteq> skippedMessages w2" "mountedFails w1 \<subseteq> mountedFails w2"
    using outcomeSet.simps(2,3) by metis+
  with assms(1) show ?thesis
    by (auto simp: landsUnprivileged_def split: if_splits)
qed

lemma landsUnprivileged_host:
  assumes "entries w1 = entries w" and "f_flag w1 = f_flag w"
  shows "landsUnprivileged hasher w1 isoFile w' = landsUnprivileged hasher w isoFile w'"
  using isAlreadyMounted_host[OF assms] by (simp add: landsUnprivileged_def)

lemma runTasks_unprivileged:
  assumes "euid w \<noteq> 0" and "runTasks hasher isoFiles q st w = (acts, st', w')"
  shows "mountCalls acts = []
         \<and> euid w' = euid w \<and> entries w' = entries w \<and> f_flag w' = f_flag w
         \<and> (\<forall>c. outcomeSet c w \<subseteq> outcomeSet c w')
         \<and> (\<forall>i \<in> set q - validIndices st. landsUnprivileged hasher w (isoFiles ! nat (i - 1)) w')"
  using assms
proof (induction q arbitrary: st w acts st' w')
  case Nil
  then show ?case by simp
next
  case (Cons j q)
  obtain a1 st1 w1 where p: "processTask hasher isoFiles j st w = (a1, st1, w1)"
    by (cases "processTask hasher isoFiles j st w") auto
  obtain a2 st2 w2 where r: "runTasks hasher isoFiles q st1 w1 = (a2, st2, w2)"
    by (cases "runTasks hasher isoFiles q st1 w1") auto
  from Cons.prems(2) p r have eq: "acts = a1 @ a2" "st' = st2" "w' = w2"
    by simp_all
  note u1 = processTask_unprivileged[OF Cons.prems(1) p]
  then have e1: "euid w1 \<noteq> 0"
    using Cons.prems(1) by simp
  note u2 = Cons.IH[OF e1 r]
  have v1: "validIndices st1 = insert j (validIndices st)"
    using processTask_effect[OF p] by simp
  have grow: "\<forall>c. outcomeSet c w \<subseteq> outcomeSet c w2"
    using u1 u2 by blast
  have lands: "landsUnprivileged hasher w (isoFiles ! nat (i - 1)) w2"
    if "i \<in> set (j # q) - validIndices st" for i
  proof (cases "i = j")
    case True
    with that u1 have "landsUnprivileged hasher w (isoFiles ! nat (i - 1)) w1"
      by simp
    then show ?thesis
      using landsUnprivileged_mono u2 by blast
  next
    case False
    with that v1 have "i \<in> set q - validIndices st1"
      by simp
    with u2 have "landsUnprivileged hasher w1 (isoFiles ! nat (i - 1)) w2"
      by blast
    then show ?thesis
      using landsUnprivileged_host[of w1 w] u1 by simp
  qed
  from u1 u2 grow lands show ?case
    unfolding eq by simp
qed

lemma runPool_unprivileged:
  assumes "euid w \<noteq> 0" and "tasksConsistent n st"
    and "runPool numThreads hasher isoFiles st w = (acts, st', w')"
  shows "mountCalls acts = []
         \<and> (\<forall>c. outcomeSet c w \<subseteq> outcomeSet c w')
         \<and> (numThreads \<noteq> 0 \<longrightarrow>
              (\<forall>i \<in> processedIndices st. landsUnprivileged hasher w (isoFiles ! nat (i - 1)) w'))"
proof (cases "numThreads = 0")
  case True
  with assms(3) show ?thesis by (simp add: runPool_def)
next
  case False
  with assms(3) have "runTasks hasher isoFiles (pending st) st w = (acts, st', w')"
    by (simp add: runPool_def)
  from runTasks_unprivileged[OF assms(1) this] assms(2) False show ?thesis
    by (simp add: tasksConsistent_def)
qed

lemma rootErrorOf_text:
  "\<exists>text. rootErrorOf isoFile = text @ ''Root privileges are required.'' @ ESC @ ''[0m''"
  unfolding rootErrorOf_def
  by (rule exI[of _ "ESC @ ''[1;91mFailed to mount: '' @ ESC @ ''[1;93m'' @ sq @ displayName isoFile @ sq
     @ ESC @ ''[0m'' @ ESC @ ''[1;91m. ''"]) simp

text \<open>
  Claim C4, as amended. For a caller that is not privileged, no mount call occurs for the
  whole selection. When the call returns, every selected candidate whose mount point is
  not taken for a mount is in the Failed set with the message that ends in
  ``Root privileges are required.'', and every selected candidate whose mount point is
  already taken for a mount is in the Skipped set: that check comes first.
\<close>

theorem unprivileged_caller_mounts_nothing:
  assumes "euid w \<noteq> 0"
    and "processAndMountIsoFiles maxThreads hasher input isoFiles w = (r, acts, st, w')"
  shows "mountCalls acts = []
         \<and> (r = Returned \<longrightarrow>
              (\<forall>i \<in> processedIndices st.
                 if isAlreadyMounted w (mountPointOf hasher (isoFiles ! nat (i - 1)))
                 then skippedMessageOf (isoFiles ! nat (i - 1))
                        (mountPointOf hasher (isoFiles ! nat (i - 1))) \<in> skippedMessages w'
                 else rootErrorOf (isoFiles ! nat (i - 1)) \<in> mountedFails w'))
         \<and> (\<forall>isoFile. \<exists>text. rootErrorOf isoFile = text @ ''Root privileges are required.'' @ ESC @ ''[0m'')"
  using assms(2)
proof (cases rule: processAndMountIsoFiles_cases)
  case (early e)
  then show ?thesis using rootErrorOf_text by simp
next
  case (threw tokens st0 e)
  have c: "tasksConsistent (length isoFiles) st0"
    using processTokens_consistent[OF initialLocals_consistent threw(2)] .
  from runPool_unprivileged[OF assms(1) c threw(3)] threw(4) rootErrorOf_text show ?thesis
    by simp
next
  case (finished tokens st0 a1 st1 w1 a2)
  have c: "tasksConsistent (length isoFiles) st0"
    using processTokens_consistent[OF initialLocals_consistent finished(2)] .
  note u = runPool_unprivileged[OF assms(1) c finished(3)]
  note d = runPool_dispatch[OF c finished(3)]
  note e = reportErrors_effect[OF finished(4)]
  note t = awaitTasks_effect[OF finished(6)]
  have same: "processedIndices st = processedIndices st0"
    using d t by simp
  have calls: "mountCalls acts = []"
    using u e finished(5) by simp
  have lands: "landsUnprivileged hasher w (isoFiles ! nat (i - 1)) w'"
    if "r = Returned" and "i \<in> processedIndices st" for i
  proof -
    have "min (card tokens) maxThreads \<noteq> 0"
    proof
      assume z: "min (card tokens) maxThreads = 0"
      with d have "st1 = st0" by simp
      with c that(2) same have "activeTaskCount st1 \<noteq> 0" "processedIndices st1 \<noteq> {}"
        by (auto simp: tasksConsistent_def)
      with t that(1) show False by simp
    qed
    with u d that(2) same have "landsUnprivileged hasher w (isoFiles ! nat (i - 1)) w1"
      by simp
    then show ?thesis
      using e by (simp add: landsUnprivileged_def)
  qed
  from calls lands rootErrorOf_text show ?thesis
    by (simp add: landsUnprivileged_def)
qed

theorem unprivileged_caller_mounts_nothing_witness:
  "euid (exampleHost\<lparr>euid := 1000\<rparr>) \<noteq> 0
   \<and> fst (processAndMountIsoFiles 4 exampleHasher ''2-1'' exampleFiles (exampleHost\<lparr>euid := 1000\<rparr>)) = Returned
   \<and> mountCalls (fst (snd (processAndMountIsoFiles 4 exampleHasher ''2-1'' exampleFiles
        (exampleHost\<lparr>euid := 1000\<rparr>)))) = []
   \<and> rootErrorOf ''/home/u/b.iso''
       \<in> mountedFails (snd (snd (snd (processAndMountIsoFiles 4 exampleHasher ''2-1'' exampleFiles
            (exampleHost\<lparr>euid := 1000\<rparr>)))))"
proof -
  let ?w = "exampleHost\<lparr>euid := 1000\<rparr>"
  let ?r = "processAndMountIsoFiles 4 exampleHasher ''2-1'' exampleFiles ?w"
  have h: "euid ?w \<noteq> 0"
    by simp
  have v: "fst ?r = Returned" "2 \<in> processedIndices (fst (snd (snd ?r)))"
    "\<not> isAlreadyMounted ?w (mountPointOf exampleHasher (exampleFiles ! nat (2 - 1)))"
    "exampleFiles ! nat (2 - 1) = ''/home/u/b.iso''"
    by code_simp+
  have "?r = (fst ?r, fst (snd ?r), fst (snd (snd ?r)), snd (snd (snd ?r)))"
    by simp
  from unprivileged_caller_mounts_nothing[OF h this] have
    "mountCalls (fst (snd ?r)) = []"
    "\<forall>i \<in> processedIndices (fst (snd (snd ?r))).
       if isAlreadyMounted ?w (mountPointOf exampleHasher (exampleFiles ! nat (i - 1)))
       then skippedMessageOf (exampleFiles ! nat (i - 1))
              (mountPointOf exampleHasher (exampleFiles ! nat (i - 1))) \<in> skippedMessages (snd (snd (snd ?r)))
       else rootErrorOf (exampleFiles ! nat (i - 1)) \<in> mountedFails (snd (snd (snd ?r)))"
    using v(1) by blast+
  with h v show ?thesis
    by (metis (no_types, lifting))
qed

text \<open>
  Claim C4 as stated fails: an unprivileged caller selects the first candidate, whose
  mount point is already mounted; the call returns with the candidate in the Skipped set
  and the Failed set empty.
\<close>

theorem unprivileged_candidate_can_be_skipped:
  "euid (exampleHost\<lparr>euid := 1000, entries := [''/mnt/iso_a_70000'' \<mapsto> NonEmptyDir],
                      f_flag := (\<lambda>path. ST_RDONLY)\<rparr>) \<noteq> 0
   \<and> fst (processAndMountIsoFiles 4 exampleHasher ''1'' exampleFiles
        (exampleHost\<lparr>euid := 1000, entries := [''/mnt/iso_a_70000'' \<mapsto> NonEmptyDir],
                      f_flag := (\<lambda>path. ST_RDONLY)\<rparr>)) = Returned
   \<and> processedIndices (fst (snd (snd (processAndMountIsoFiles 4 exampleHasher ''1'' exampleFiles
        (exampleHost\<lparr>euid := 1000, entries := [''/mnt/iso_a_70000'' \<mapsto> NonEmptyDir],
                      f_flag := (\<lambda>path. ST_RDONLY)\<rparr>))))) = {1}
   \<and> mountedFails (snd (snd (snd (processAndMountIsoFiles 4 exampleHasher ''1'' exampleFiles
        (exampleHost\<lparr>euid := 1000, entries := [''/mnt/iso_a_70000'' \<mapsto> NonEmptyDir],
                      f_flag := (\<lambda>path. ST_RDONLY)\<rparr>))))) = {}
   \<and> skippedMessages (snd (snd (snd (processAndMountIsoFiles 4 exampleHasher ''1'' exampleFiles
        (exampleHost\<lparr>euid := 1000, entries := [''/mnt/iso_a_70000'' \<mapsto> NonEmptyDir],
                      f_flag := (\<lambda>path. ST_RDONLY)\<rparr>)))))
       = {skippedMessageOf ''/home/u/a.iso'' ''/mnt/iso_a_70000''}"
  by code_simp

text \<open>A range that comes twice.\<close>

lemma submitIndex_keeps:
  "processedRanges (submitIndex i st) = processedRanges st"
  "errorQueue (submitIndex i st) = errorQueue st"
  by (simp_all add: submitIndex_def)

lemma fold_submitIndex_keeps:
  "processedRanges (fold submitIndex js st) = processedRanges st
   \<and> errorQueue (fold submitIndex js st) = errorQueue st"
  by (induction js arbitrary: st) (simp_all add: submitIndex_keeps)

lemma processRange_grows: "processedRanges st \<subseteq> processedRanges (processRange n start end' st)"
  using fold_submitIndex_keeps[of "rangeList start end'"
      "st\<lparr>processedRanges := insert (start, end') (processedRanges st)\<rparr>"]
  by (auto simp: processRange_def addError_def)

lemma processToken_grows:
  assumes "processToken n token st = Inr st'"
  shows "processedRanges st \<subseteq> processedRanges st'"
proof -
  have "processedRanges st \<subseteq> processedRanges (processRange n a b st)" for a b
    by (rule processRange_grows)
  moreover have "processedRanges (addError error st) = processedRanges st" for error
    by (simp add: addError_def)
  moreover have "processedRanges (submitIndex i st) = processedRanges st" for i
    by (simp add: submitIndex_keeps)
  ultimately show ?thesis
    using assms
    by (auto simp: processToken_def split: if_splits option.splits sum.splits exn.splits)
qed

lemma processRange_accepted:
  assumes "errorQueue (processRange n start end' st) = errorQueue st"
  shows "\<not> (start < 1 \<or> to_size_t start > n \<or> end' < 1 \<or> to_size_t end' > n)
         \<and> (start, end') \<in> processedRanges (processRange n start end' st)"
proof (cases "start < 1 \<or> to_size_t start > n \<or> end' < 1 \<or> to_size_t end' > n")
  case True
  with assms show ?thesis
    by (simp add: processRange_def addError_def)
next
  case False
  then show ?thesis
    using fold_submitIndex_keeps[of "rangeList start end'"
        "st\<lparr>processedRanges := insert (start, end') (processedRanges st)\<rparr>"]
    by (auto simp: processRange_def)
qed

lemma processRange_known:
  assumes "\<not> (start < 1 \<or> to_size_t start > n \<or> end' < 1 \<or> to_size_t end' > n)"
    and "(start, end') \<in> processedRanges st"
  shows "processRange n start end' st = st"
  using assms by (simp add: processRange_def)

lemma processTokens_ignored_last:
  assumes "\<And>st'. r \<in> processedRanges st' \<Longrightarrow> processToken n token st' = Inr st'"
    and "r \<in> processedRanges st"
  shows "processTokens n (between @ [token]) st = processTokens n between st"
  using assms(2)
proof (induction between arbitrary: st)
  case Nil
  then show ?case
    using assms(1)[of st] by simp
next
  case (Cons t ts)
  show ?case
  proof (cases "processToken n t st")
    case (Inl e)
    then show ?thesis by simp
  next
    case (Inr st')
    with Cons.prems processToken_grows[OF Inr] have "r \<in> processedRanges st'"
      by blast
    from Cons.IH[OF this] Inr show ?thesis by simp
  qed
qed

text \<open>
  Claim C8, as amended. A range token that the dispatching pass has accepted (it has a
  hyphen and queued no error) is ignored wherever it comes again in the selection: no
  exception, no error message, no task. The pass ends as it does without the repetition.
\<close>

theorem repeated_range_changes_nothing:
  assumes "find_from (CHR ''-'') 0 token \<noteq> None"
    and "processToken n token st = Inr st1"
    and "errorQueue st1 = errorQueue st"
  shows "processTokens n (token # between @ [token]) st = processTokens n (token # between) st"
proof -
  from assms(1) obtain dashPos where d: "find_from (CHR ''-'') 0 token = Some dashPos"
    by auto
  have noerr: "addError error st \<noteq> st1" for error
    using assms(3) by (auto simp: addError_def)
  from assms(2) d noerr obtain start end' where
    z: "\<not> isAllZeros token"
    and shape: "\<not> (find_from (CHR ''-'') (dashPos + 1) token \<noteq> None
              \<or> dashPos = 0 \<or> dashPos = length token - 1
              \<or> \<not> isdigit (token ! (dashPos - 1)) \<or> \<not> isdigit (token ! (dashPos + 1)))"
    and s: "stoi (take dashPos token) = Inr start"
    and e: "stoi (drop (dashPos + 1) token) = Inr end'"
    and r: "st1 = processRange n start end' st"
    by (auto simp: processToken_def split: if_splits sum.splits exn.splits)
  have again: "processToken n token st' = Inr (processRange n start end' st')" for st'
    using z d shape s e by (simp add: processToken_def)
  note acc = processRange_accepted[of n start end' st]
  have known: "(start, end') \<in> processedRanges st1"
    using acc assms(3) r by simp
  have ignored: "processToken n token st' = Inr st'" if "(start, end') \<in> processedRanges st'" for st'
    using again[of st'] processRange_known[of start n end' st'] acc assms(3) r that by simp
  have "processTokens n (between @ [token]) st1 = processTokens n between st1"
    using ignored known by (rule processTokens_ignored_last)
  then show ?thesis
    using assms(2) by simp
qed

theorem repeated_range_changes_nothing_witness:
  "find_from (CHR ''-'') 0 ''3-1'' \<noteq> None
   \<and> processToken 6 ''3-1'' initialLocals = Inr (processRange 6 3 1 initialLocals)
   \<and> pending (processRange 6 3 1 initialLocals) = [3, 2, 1]
   \<and> errorQueue (processRange 6 3 1 initialLocals) = []
   \<and> processTokens 6 [''3-1'', ''5'', ''3-1''] initialLocals
     = processTokens 6 [''3-1'', ''5''] initialLocals"
proof -
  have h: "find_from (CHR ''-'') 0 ''3-1'' \<noteq> None"
    "processToken 6 ''3-1'' initialLocals = Inr (processRange 6 3 1 initialLocals)"
    "errorQueue (processRange 6 3 1 initialLocals) = errorQueue initialLocals"
    "pending (processRange 6 3 1 initialLocals) = [3, 2, 1]"
    "errorQueue (processRange 6 3 1 initialLocals) = []"
    by code_simp+
  from repeated_range_changes_nothing[OF h(1-3), of "[''5'']"] h show ?thesis
    by simp
qed

text \<open>
  Claim C8 as stated fails: the selection \<^verbatim>\<open>1-2 1-2\<close> repeats a range, the call
  returns, and neither the error queue nor the InputError set holds a message.
\<close>

theorem duplicate_range_reports_no_error:
  "tokenize ''1-2 1-2'' = [''1-2'', ''1-2'']
   \<and> fst (processAndMountIsoFiles 4 exampleHasher ''1-2 1-2'' exampleFiles exampleHost) = Returned
   \<and> errorQueue (fst (snd (snd (processAndMountIsoFiles 4 exampleHasher ''1-2 1-2'' exampleFiles exampleHost)))) = []
   \<and> uniqueErrorMessages (snd (snd (snd (processAndMountIsoFiles 4 exampleHasher ''1-2 1-2'' exampleFiles exampleHost)))) = {}"
  by code_simp

text \<open>
  Claim C9. When the call returns, every task that was submitted has counted itself
  completed: \<open>completedTasks\<close> equals \<open>totalTasks\<close>, which is the number of closures
  handed to the pool, one per resolved index, and no task is active. No progress thread is
  left running: when an index was resolved the thread was started, \<open>isProcessingComplete\<close>
  was set and the thread was joined; when none was, the thread was never started.
\<close>

theorem returned_call_completed_every_task:
  assumes "processAndMountIsoFiles maxThreads hasher input isoFiles w = (Returned, acts, st, w')"
  shows "completedTasks st = totalTasks st
         \<and> totalTasks st = int (length (pending st))
         \<and> totalTasks st = int (card (processedIndices st))
         \<and> activeTaskCount st = 0
         \<and> progressThread st \<noteq> Running
         \<and> (processedIndices st \<noteq> {} \<longrightarrow> isProcessingComplete st \<and> progressThread st = Joined)
         \<and> (processedIndices st = {} \<longrightarrow> \<not> isProcessingComplete st \<and> progressThread st = NotStarted)"
  using assms
proof (cases rule: processAndMountIsoFiles_cases)
  case (early e)
  then show ?thesis by simp
next
  case (threw tokens st0 e)
  then show ?thesis by simp
next
  case (finished tokens st0 a1 st1 w1 a2)
  have c: "tasksConsistent (length isoFiles) st0"
    using processTokens_consistent[OF initialLocals_consistent finished(2)] .
  note d = runPool_dispatch[OF c finished(3)]
  note n = runPool_counts[OF finished(3)]
  note t = awaitTasks_effect[OF finished(6)]
  note j = awaitTasks_thread[OF finished(6)]
  have same: "processedIndices st = processedIndices st0" "processedIndices st1 = processedIndices st0"
    using d t by simp_all
  have queue: "pending st = pending st0"
  proof (cases "min (card tokens) maxThreads = 0")
    case True
    with d t show ?thesis by simp
  next
    case False
    with finished(3) have "runTasks hasher isoFiles (pending st0) st0 w = (a1, st1, w1)"
      by (simp add: runPool_def)
    from runTasks_dispatch[OF this] t show ?thesis by simp
  qed
  have len: "int (length (pending st0)) = int (card (processedIndices st0))"
    using c distinct_card[of "pending st0"] by (simp add: tasksConsistent_def)
  have total: "totalTasks st = int (length (pending st0))"
    using n t c by (simp add: tasksConsistent_def)
  have sum: "completedTasks st + activeTaskCount st = int (length (pending st0))"
    using n t c by (simp add: tasksConsistent_def)
  have idle: "activeTaskCount st = 0"
  proof (cases "processedIndices st0 = {}")
    case True
    then have "pending st0 = []"
      using c by (simp add: tasksConsistent_def)
    moreover from this finished(3) have "st1 = st0"
      by (simp add: runPool_def split: if_splits)
    ultimately show ?thesis
      using t c by (simp add: tasksConsistent_def)
  next
    case False
    with t same show ?thesis by (simp split: if_splits)
  qed
  have thread0: "\<not> isProcessingComplete st1" "progressThread st1 = NotStarted"
    using n c by (simp_all add: tasksConsistent_def)
  have thread: "if processedIndices st0 = {}
                then \<not> isProcessingComplete st \<and> progressThread st = NotStarted
                else isProcessingComplete st \<and> progressThread st = Joined"
    using j thread0 same by (simp split: if_splits)
  from total sum idle len queue thread same show ?thesis
    by (auto split: if_splits)
qed

theorem returned_call_completed_every_task_witness:
  "fst (processAndMountIsoFiles 4 exampleHasher ''1-3 2-5'' exampleFiles exampleHost) = Returned
   \<and> totalTasks (fst (snd (snd (processAndMountIsoFiles 4 exampleHasher ''1-3 2-5'' exampleFiles exampleHost)))) = 5
   \<and> completedTasks (fst (snd (snd (processAndMountIsoFiles 4 exampleHasher ''1-3 2-5'' exampleFiles exampleHost)))) = 5
   \<and> progressThread (fst (snd (snd (processAndMountIsoFiles 4 exampleHasher ''1-3 2-5'' exampleFiles exampleHost)))) = Joined"
proof -
  let ?r = "processAndMountIsoFiles 4 exampleHasher ''1-3 2-5'' exampleFiles exampleHost"
  have v: "fst ?r = Returned" "totalTasks (fst (snd (snd ?r))) = 5"
    "processedIndices (fst (snd (snd ?r))) \<noteq> {}"
    by code_simp+
  have "?r = (fst ?r, fst (snd ?r), fst (snd (snd ?r)), snd (snd (snd ?r)))"
    by simp
  then have "?r = (Returned, fst (snd ?r), fst (snd (snd ?r)), snd (snd (snd ?r)))"
    using v(1) by simp
  from returned_call_completed_every_task[OF this] v show ?thesis
    by simp
qed

end
